theory Spec2Isabelle
  imports Main "HOL-Library.AList"
begin

section \<open>Python values the data pipeline relies on\<close>

text \<open>
  The exceptions that \<^verbatim>\<open>texar/data/data/data_base.py\<close> raises, catches or lets
  through. A call that may raise returns \<open>error + 'a\<close>, \<open>Inl\<close> being the exception.
\<close>

datatype error =
    TypeError | IndexError | KeyError | StopIteration | RuntimeError
  | AttributeError | ValueError

text \<open>\<^verbatim>\<open>seq[index]\<close> on a Python list: negative indices count from the end.\<close>

definition list_getitem :: "'a list \<Rightarrow> int \<Rightarrow> error + 'a" where
  "list_getitem xs i =
     (if 0 \<le> i \<and> i < int (length xs) then Inr (xs ! nat i)
      else if i < 0 \<and> - int (length xs) \<le> i then Inr (xs ! nat (int (length xs) + i))
      else Inl IndexError)"

text \<open>\<^verbatim>\<open>del seq[index]\<close> on a Python list.\<close>

definition list_delitem :: "'a list \<Rightarrow> int \<Rightarrow> error + 'a list" where
  "list_delitem xs i =
     (if 0 \<le> i \<and> i < int (length xs) then Inr (take (nat i) xs @ drop (Suc (nat i)) xs)
      else if i < 0 \<and> - int (length xs) \<le> i
        then Inr (take (nat (int (length xs) + i)) xs @ drop (Suc (nat (int (length xs) + i))) xs)
      else Inl IndexError)"

text \<open>
  A Python dict is an association list with distinct keys, in insertion order:
  \<open>map_of\<close> reads it, \<open>AList.update\<close> is \<^verbatim>\<open>d[k] = v\<close> and \<open>AList.delete\<close> is
  \<^verbatim>\<open>del d[k]\<close> (which raises \<open>KeyError\<close> on a missing key).
\<close>

type_synonym 'a dict = "(int \<times> 'a) list"

definition dict_getitem :: "'a dict \<Rightarrow> int \<Rightarrow> error + 'a" where
  "dict_getitem d k = (case map_of d k of None \<Rightarrow> Inl KeyError | Some v \<Rightarrow> Inr v)"

definition dict_delitem :: "'a dict \<Rightarrow> int \<Rightarrow> error + 'a dict" where
  "dict_delitem d k = (case map_of d k of None \<Rightarrow> Inl KeyError | Some v \<Rightarrow> Inr (AList.delete k d))"

text \<open>
  The builtin \<^verbatim>\<open>len(x)\<close> calls \<^verbatim>\<open>x.__len__()\<close>, passes its exception on and
  refuses a negative result with \<open>ValueError\<close>.
\<close>

definition py_len :: "error + int \<Rightarrow> error + int" where
  "py_len r = (case r of Inl e \<Rightarrow> Inl e | Inr n \<Rightarrow> if n < 0 then Inl ValueError else Inr n)"

text \<open>
  An iterator over finitely many items: the items still to come, and the exception
  raised once they are used up (\<open>StopIteration\<close> for a clean end). An iterator that has
  raised is finished: every later \<^verbatim>\<open>next\<close> raises \<open>StopIteration\<close>.
\<close>

type_synonym 'a iterator = "'a list \<times> error"

fun next_it :: "'a iterator \<Rightarrow> (error + 'a) \<times> 'a iterator" where
  "next_it ([], e) = (Inl e, ([], StopIteration))"
| "next_it (x # xs, e) = (Inr x, (xs, e))"

section \<open>Data sources\<close>

text \<open>
  The sources of one element type. Raw and processed examples share the type \<open>'a\<close>,
  as Python values do. \<open>IterDataSource\<close> is given the items its iterable yields; the
  iterable yields finitely many items and every \<^verbatim>\<open>iter\<close> of it starts from the first
  (a list, a file, a generator function; not a one-shot iterator object).
  \<^verbatim>\<open>ZipDataSource\<close> and \<^verbatim>\<open>RecordDataSource\<close> change the element type and are
  not part of this development.
\<close>

datatype 'a DataSource =
    SequenceDataSource "'a list"
  | IterDataSource "'a list"
  | FilterDataSource "'a DataSource" "'a \<Rightarrow> bool"
  | TruncatedDataSource "'a DataSource" int
  | TransformedDataSource "'a DataSource" "'a \<Rightarrow> 'a"

text \<open>
  \<^verbatim>\<open>__getitem__\<close>: the base class raises \<open>TypeError\<close>; the truncated source checks
  \<^verbatim>\<open>item >= self._max_size\<close> first.
\<close>

fun getitem :: "'a DataSource \<Rightarrow> int \<Rightarrow> error + 'a" where
  "getitem (SequenceDataSource seq) index = list_getitem seq index"
| "getitem (IterDataSource it) index = Inl TypeError"
| "getitem (FilterDataSource src filter_fn) index = Inl TypeError"
| "getitem (TruncatedDataSource src max_size) item =
     (if item \<ge> max_size then Inl IndexError else getitem src item)"
| "getitem (TransformedDataSource src process_fn) item =
     (case getitem src item of Inl e \<Rightarrow> Inl e | Inr x \<Rightarrow> Inr (process_fn x))"

text \<open>
  \<^verbatim>\<open>__len__\<close>, the method itself; the callers in the source go through \<^verbatim>\<open>len()\<close>,
  that is \<open>py_len\<close>. The truncated source catches \<open>TypeError\<close> only.
\<close>

fun len_method :: "'a DataSource \<Rightarrow> error + int" where
  "len_method (SequenceDataSource seq) = Inr (int (length seq))"
| "len_method (IterDataSource it) = Inl TypeError"
| "len_method (FilterDataSource src filter_fn) = Inl TypeError"
| "len_method (TruncatedDataSource src max_size) =
     (case py_len (len_method src) of
        Inl e \<Rightarrow> if e = TypeError then Inr max_size else Inl e
      | Inr n \<Rightarrow> Inr (min n max_size))"
| "len_method (TransformedDataSource src process_fn) = py_len (len_method src)"

text \<open>
  The generator of \<^verbatim>\<open>_TruncatedDataSource.__iter__\<close>:
  \<^verbatim>\<open>while count < self._max_size: yield next(iterator); count += 1\<close>.
  A \<open>StopIteration\<close> that \<^verbatim>\<open>next(iterator)\<close> raises inside the generator body reaches
  the consumer as \<open>RuntimeError\<close> (PEP 479, the semantics of Python 3.7 and later);
  any other exception passes through unchanged.
\<close>

definition generator_raise :: "error \<Rightarrow> error" where
  "generator_raise e = (if e = StopIteration then RuntimeError else e)"

function truncated_iter :: "int \<Rightarrow> int \<Rightarrow> 'a iterator \<Rightarrow> 'a iterator" where
  "truncated_iter count max_size iterator =
     (if count < max_size then
        (case next_it iterator of
           (Inl e, iterator') \<Rightarrow> ([], generator_raise e)
         | (Inr x, iterator') \<Rightarrow>
             (case truncated_iter (count + 1) max_size iterator' of
                (ys, t) \<Rightarrow> (x # ys, t)))
      else ([], StopIteration))"
  by pat_completeness auto
termination
  by (relation "measure (\<lambda>(count, max_size, iterator). nat (max_size - count))") auto

declare truncated_iter.simps [simp del]

text \<open>
  \<^verbatim>\<open>__iter__\<close>: a fresh iterator. The filter's \<^verbatim>\<open>for\<close> loop ends cleanly on
  \<open>StopIteration\<close> and lets any other exception through; \<^verbatim>\<open>map\<close> passes the
  exception of the wrapped iterator on as it is.
\<close>

fun source_iter :: "'a DataSource \<Rightarrow> 'a iterator" where
  "source_iter (SequenceDataSource seq) = (seq, StopIteration)"
| "source_iter (IterDataSource it) = (it, StopIteration)"
| "source_iter (FilterDataSource src filter_fn) =
     (case source_iter src of (xs, e) \<Rightarrow> (filter filter_fn xs, e))"
| "source_iter (TruncatedDataSource src max_size) = truncated_iter 0 max_size (source_iter src)"
| "source_iter (TransformedDataSource src process_fn) =
     (case source_iter src of (xs, e) \<Rightarrow> (map process_fn xs, e))"

section \<open>The cached data source\<close>

text \<open>
  \<^verbatim>\<open>_CachedDataSource\<close>. \<^verbatim>\<open>__init__\<close> fixes \<^verbatim>\<open>_erase_after_access\<close> and the
  kind of \<^verbatim>\<open>_cache\<close> together (a dict when erasing, a list otherwise) and nothing
  changes either later, so the state stores the kind once, as the constructor of the
  cache.
\<close>

datatype 'a cache = DictCache "'a dict" | ListCache "'a list"

record 'a CachedDataSource =
  c_source :: "'a DataSource"
  c_iter :: "'a iterator"
  max_index :: int
  cache :: "'a cache"

definition erase_after_access :: "'a CachedDataSource \<Rightarrow> bool" where
  "erase_after_access c = (case cache c of DictCache d \<Rightarrow> True | ListCache l \<Rightarrow> False)"

definition CachedDataSource_init :: "'a DataSource \<Rightarrow> bool \<Rightarrow> 'a CachedDataSource" where
  "CachedDataSource_init data_source erase =
     \<lparr>c_source = data_source, c_iter = source_iter data_source, max_index = - 1,
      cache = (if erase then DictCache [] else ListCache [])\<rparr>"

text \<open>\<^verbatim>\<open>__getitem__\<close>: read the buffer, and delete the entry when erasing.\<close>

definition cached_getitem :: "'a CachedDataSource \<Rightarrow> int \<Rightarrow> (error + 'a) \<times> 'a CachedDataSource" where
  "cached_getitem c index =
     (case cache c of
        DictCache d \<Rightarrow>
          (case dict_getitem d index of
             Inl e \<Rightarrow> (Inl e, c)
           | Inr example \<Rightarrow> (Inr example, c\<lparr>cache := DictCache (AList.delete index d)\<rparr>))
      | ListCache l \<Rightarrow>
          (case list_getitem l index of
             Inl e \<Rightarrow> (Inl e, c)
           | Inr example \<Rightarrow> (Inr example, c)))"

text \<open>
  \<^verbatim>\<open>prefetch\<close>: pull from the iterator while \<^verbatim>\<open>self._max_index < index\<close>. An
  exception of \<^verbatim>\<open>next\<close> leaves the loop with what was buffered so far.
\<close>

definition cache_store :: "'a cache \<Rightarrow> int \<Rightarrow> 'a \<Rightarrow> 'a cache" where
  "cache_store ch k example =
     (case ch of
        DictCache d \<Rightarrow> DictCache (AList.update k example d)
      | ListCache l \<Rightarrow> ListCache (l @ [example]))"

function prefetch :: "int \<Rightarrow> 'a CachedDataSource \<Rightarrow> (error + unit) \<times> 'a CachedDataSource" where
  "prefetch index c =
     (if max_index c < index then
        (case next_it (c_iter c) of
           (Inl e, it') \<Rightarrow> (Inl e, c\<lparr>c_iter := it'\<rparr>)
         | (Inr example, it') \<Rightarrow>
             prefetch index
               (c\<lparr>c_iter := it', max_index := max_index c + 1,
                  cache := cache_store (cache c) (max_index c + 1) example\<rparr>))
      else (Inr (), c))"
  by pat_completeness auto
termination
  by (relation "measure (\<lambda>(index, c). nat (index - max_index c))") auto

declare prefetch.simps [simp del]

text \<open>\<^verbatim>\<open>reset\<close>: rewind, when erasing only. The dict is not cleared.\<close>

definition reset :: "'a CachedDataSource \<Rightarrow> 'a CachedDataSource" where
  "reset c =
     (if erase_after_access c
      then c\<lparr>c_iter := source_iter (c_source c), max_index := - 1\<rparr>
      else c)"

section \<open>The pipeline engine\<close>

text \<open>
  Modelled from the spec: the enumerations \<^verbatim>\<open>_LazyStrategy\<close> and
  \<^verbatim>\<open>_CacheStrategy\<close> are imported from \<^verbatim>\<open>texar.data.data.dataset_utils\<close>, which
  is not among the sources. The spec gives their values: laziness is one of none,
  process, all; cache is one of none, loaded, processed.
\<close>

datatype LazyStrategy = Lazy_NONE | Lazy_PROCESS | Lazy_ALL

datatype CacheStrategy = Cache_NONE | Cache_LOADED | Cache_PROCESSED

text \<open>The hyperparameters that \<^verbatim>\<open>DataBase.__init__\<close> reads.\<close>

record hparams =
  hp_lazy_strategy :: LazyStrategy
  hp_cache_strategy :: CacheStrategy
  hp_num_parallel_calls :: int
  hp_parallelize_processing :: bool
  hp_max_dataset_size :: int

text \<open>The calls of \<^verbatim>\<open>warnings.warn\<close>, logged in the order they are made.\<close>

datatype warning =
    Warn_equivalent_to_processed CacheStrategy
  | Warn_equivalent_to_loaded
  | Warn_possibly_infinite
  | Warn_len_needs_traversal

text \<open>
  Lines 266 to 281 of \<^verbatim>\<open>DataBase.__init__\<close>: the cache strategy that construction
  settles on, and the warnings it emits.
\<close>

definition resolve_strategies :: "LazyStrategy \<Rightarrow> CacheStrategy \<Rightarrow> CacheStrategy \<times> warning list" where
  "resolve_strategies lazy cache_s =
     (if lazy = Lazy_NONE then
        (Cache_PROCESSED,
         if cache_s \<noteq> Cache_PROCESSED then [Warn_equivalent_to_processed cache_s] else [])
      else if lazy = Lazy_PROCESS then
        (if cache_s = Cache_NONE then (Cache_LOADED, [Warn_equivalent_to_loaded])
         else (cache_s, []))
      else (cache_s, []))"

text \<open>
  \<^verbatim>\<open>self._source\<close> after construction. \<^verbatim>\<open>self._cached_source\<close> is the same object
  as the cached source inside \<^verbatim>\<open>self._source\<close>, so its state is stored once, here;
  the attribute \<^verbatim>\<open>_cached_source\<close> does not exist for a source with random access.
\<close>

datatype 'a engine_source =
    Direct "'a DataSource"
  | Cached "'a CachedDataSource"
  | TransformedCached "'a CachedDataSource"

fun cached_source :: "'a engine_source \<Rightarrow> 'a CachedDataSource option" where
  "cached_source (Direct s) = None"
| "cached_source (Cached c) = Some c"
| "cached_source (TransformedCached c) = Some c"

fun set_cached_source :: "'a engine_source \<Rightarrow> 'a CachedDataSource \<Rightarrow> 'a engine_source" where
  "set_cached_source (Direct s) c' = Direct s"
| "set_cached_source (Cached c) c' = Cached c'"
| "set_cached_source (TransformedCached c) c' = TransformedCached c'"

record 'a DataBase =
  source :: "'a engine_source"
  process :: "'a \<Rightarrow> 'a"
  lazy_strategy :: LazyStrategy
  cache_strategy :: CacheStrategy
  uses_multi_processing :: bool
  parallelize_processing :: bool
  processed_cache :: "'a list"
  fully_cached :: bool
  supports_random_access :: bool
  dataset_size :: "int option"
  reorder_cache :: "'a dict option"
  flag_return_processed_examples :: bool
  flag_call_prefetch_source :: bool
  flag_call_prefetch_processed :: bool
  flag_delete_source_in_add_cache :: bool
  warnings :: "warning list"

text \<open>\<^verbatim>\<open>self._source[index]\<close> and \<^verbatim>\<open>iter(self._source)\<close> on the engine's source.\<close>

definition source_getitem :: "'a DataBase \<Rightarrow> int \<Rightarrow> (error + 'a) \<times> 'a DataBase" where
  "source_getitem d index =
     (case source d of
        Direct s \<Rightarrow> (getitem s index, d)
      | Cached c \<Rightarrow>
          (case cached_getitem c index of (r, c') \<Rightarrow> (r, d\<lparr>source := Cached c'\<rparr>))
      | TransformedCached c \<Rightarrow>
          (case cached_getitem c index of
             (Inl e, c') \<Rightarrow> (Inl e, d\<lparr>source := TransformedCached c'\<rparr>)
           | (Inr x, c') \<Rightarrow> (Inr (process d x), d\<lparr>source := TransformedCached c'\<rparr>)))"

definition engine_source_iter :: "'a DataBase \<Rightarrow> 'a iterator" where
  "engine_source_iter d =
     (case source d of
        Direct s \<Rightarrow> source_iter s
      | Cached c \<Rightarrow> source_iter (c_source c)
      | TransformedCached c \<Rightarrow>
          (case source_iter (c_source c) of (xs, e) \<Rightarrow> (map (process d) xs, e)))"

text \<open>
  Lines 304 to 316: the probe for random access. Only \<open>TypeError\<close> is caught. The
  result is \<^verbatim>\<open>_supports_random_access\<close> and \<^verbatim>\<open>_dataset_size\<close>.
\<close>

definition probe_random_access :: "LazyStrategy \<Rightarrow> 'a DataSource \<Rightarrow> error + (bool \<times> int option)" where
  "probe_random_access lazy src =
     (if lazy \<noteq> Lazy_NONE then
        (case py_len (len_method src) of
           Inl e \<Rightarrow> if e = TypeError then Inr (False, None) else Inl e
         | Inr n \<Rightarrow>
             (case getitem src 0 of
                Inl e \<Rightarrow> if e = TypeError then Inr (False, None) else Inl e
              | Inr x \<Rightarrow> Inr (True, Some n)))
      else Inr (True, None))"

text \<open>
  \<^verbatim>\<open>_prefetch_all_source\<close>. The loop \<^verbatim>\<open>while True: max_index *= 2; prefetch\<close> ends
  by an exception only, so it may run forever: \<open>None\<close> is "does not return".
\<close>

partial_function (option) prefetch_doubling ::
  "int \<Rightarrow> 'a CachedDataSource \<Rightarrow> (error \<times> 'a CachedDataSource) option" where
  "prefetch_doubling target c =
     (case prefetch (target * 2) c of
        (Inl e, c') \<Rightarrow> Some (e, c')
      | (Inr u, c') \<Rightarrow> prefetch_doubling (target * 2) c')"

declare prefetch_doubling.simps [code]

definition prefetch_all_except :: "'a DataBase \<Rightarrow> error \<Rightarrow> 'a CachedDataSource \<Rightarrow> (error + int) \<times> 'a DataBase" where
  "prefetch_all_except d e c' =
     (if e = StopIteration
      then (Inr (max_index c' + 1),
            d\<lparr>source := set_cached_source (source d) c', dataset_size := Some (max_index c' + 1)\<rparr>)
      else (Inl e, d\<lparr>source := set_cached_source (source d) c'\<rparr>))"

definition prefetch_all_source :: "'a DataBase \<Rightarrow> ((error + int) \<times> 'a DataBase) option" where
  "prefetch_all_source d =
     (case cached_source (source d) of
        None \<Rightarrow> Some (Inl AttributeError, d)
      | Some c \<Rightarrow>
          (case prefetch (10 ^ 8) c of
             (Inl e, c') \<Rightarrow> Some (prefetch_all_except d e c')
           | (Inr u, c') \<Rightarrow>
               (case prefetch_doubling (10 ^ 8) c' of
                  None \<Rightarrow> None
                | Some (e, c'') \<Rightarrow>
                    Some (prefetch_all_except
                            (d\<lparr>warnings := warnings d @ [Warn_possibly_infinite]\<rparr>) e c''))))"

text \<open>
  \<^verbatim>\<open>DataBase.__init__\<close>, for the source, the hyperparameters and the \<^verbatim>\<open>_process\<close>
  routine of the subclass. \<open>Some (Inl e)\<close>: construction raises \<open>e\<close>.
\<close>

definition DataBase_init :: "'a DataSource \<Rightarrow> hparams \<Rightarrow> ('a \<Rightarrow> 'a) \<Rightarrow> (error + 'a DataBase) option" where
  "DataBase_init src hp process_fn =
     (let lazy = hp_lazy_strategy hp;
          cache_s = fst (resolve_strategies lazy (hp_cache_strategy hp));
          ws = snd (resolve_strategies lazy (hp_cache_strategy hp));
          uses_mp = (hp_num_parallel_calls hp > 1);
          par = hp_parallelize_processing hp;
          src1 = (if hp_max_dataset_size hp \<noteq> - 1
                  then TruncatedDataSource src (hp_max_dataset_size hp) else src);
          src2 = (if \<not> par \<and> lazy = Lazy_ALL \<and> cache_s \<noteq> Cache_LOADED
                  then TransformedDataSource src1 process_fn else src1)
      in case probe_random_access lazy src2 of
           Inl e \<Rightarrow> Some (Inl e)
         | Inr (random, n_probe) \<Rightarrow>
             (let fuse = (\<not> par \<and> cache_s = Cache_LOADED);
                  src3 =
                    (if random
                     then Direct (if fuse then TransformedDataSource src2 process_fn else src2)
                     else if fuse
                       then TransformedCached (CachedDataSource_init src2 (cache_s \<noteq> Cache_LOADED))
                       else Cached (CachedDataSource_init src2 (cache_s \<noteq> Cache_LOADED)));
                  d = \<lparr>source = src3, process = process_fn, lazy_strategy = lazy,
                       cache_strategy = cache_s, uses_multi_processing = uses_mp,
                       parallelize_processing = par, processed_cache = [],
                       fully_cached = False, supports_random_access = random,
                       dataset_size = n_probe, reorder_cache = None,
                       flag_return_processed_examples =
                         (lazy \<noteq> Lazy_NONE \<and> cache_s = Cache_PROCESSED \<and> par),
                       flag_call_prefetch_source = (lazy = Lazy_ALL \<and> cache_s = Cache_NONE),
                       flag_call_prefetch_processed =
                         (\<not> par \<and> lazy = Lazy_PROCESS \<and> cache_s = Cache_PROCESSED),
                       flag_delete_source_in_add_cache =
                         (\<not> random \<and> par \<and> uses_mp \<and> lazy = Lazy_PROCESS
                          \<and> cache_s = Cache_PROCESSED),
                       warnings = ws\<rparr>
              in if lazy = Lazy_NONE then
                   (case engine_source_iter d of
                      (xs, e) \<Rightarrow>
                        if e = StopIteration
                        then Some (Inr (d\<lparr>processed_cache := map process_fn xs,
                                          dataset_size := Some (int (length xs)),
                                          fully_cached := True\<rparr>))
                        else Some (Inl e))
                 else
                   (case (if lazy = Lazy_PROCESS \<and> \<not> random
                          then prefetch_all_source d else Some (Inr 0, d)) of
                      None \<Rightarrow> None
                    | Some (Inl e, d') \<Rightarrow> Some (Inl e)
                    | Some (Inr n, d') \<Rightarrow>
                        Some (Inr (if cache_s = Cache_PROCESSED
                                   then d'\<lparr>reorder_cache := Some []\<rparr> else d')))))"

text \<open>
  \<^verbatim>\<open>DataBase.__getitem__\<close> for an integer index, and for a pair of an index and a
  raw example.
\<close>

definition DataBase_getitem :: "'a DataBase \<Rightarrow> int \<Rightarrow> (error + 'a) \<times> 'a DataBase" where
  "DataBase_getitem d index =
     (if fully_cached d then (list_getitem (processed_cache d) index, d)
      else if \<not> parallelize_processing d then source_getitem d index
      else
        (case source_getitem d index of
           (Inl e, d') \<Rightarrow> (Inl e, d')
         | (Inr raw_example, d') \<Rightarrow> (Inr (process d raw_example), d')))"

definition DataBase_getitem_pair :: "'a DataBase \<Rightarrow> int \<times> 'a \<Rightarrow> 'a" where
  "DataBase_getitem_pair d index =
     (if \<not> parallelize_processing d then snd index else process d (snd index))"

text \<open>
  \<^verbatim>\<open>_add_cached_examples\<close>. First the deletion of raw examples from the cached
  source, when the flag asks for it; an exception keeps the deletions made before it.
\<close>

fun cache_delitem :: "'a cache \<Rightarrow> int \<Rightarrow> error + 'a cache" where
  "cache_delitem (DictCache d) index =
     (case dict_delitem d index of Inl e \<Rightarrow> Inl e | Inr d' \<Rightarrow> Inr (DictCache d'))"
| "cache_delitem (ListCache l) index =
     (case list_delitem l index of Inl e \<Rightarrow> Inl e | Inr l' \<Rightarrow> Inr (ListCache l'))"

fun delete_source_examples :: "int list \<Rightarrow> 'a DataBase \<Rightarrow> (error + unit) \<times> 'a DataBase" where
  "delete_source_examples [] d = (Inr (), d)"
| "delete_source_examples (index # indices) d =
     (case cached_source (source d) of
        None \<Rightarrow> (Inl AttributeError, d)
      | Some c \<Rightarrow>
          (case cache_delitem (cache c) index of
             Inl e \<Rightarrow> (Inl e, d)
           | Inr ch \<Rightarrow>
               delete_source_examples indices
                 (d\<lparr>source := set_cached_source (source d) (c\<lparr>cache := ch\<rparr>)\<rparr>)))"

text \<open>
  The loop over \<^verbatim>\<open>zip(indices, examples)\<close>: append when the index is the length of
  the processed cache, store in the reorder buffer otherwise. The buffer exists only
  where \<^verbatim>\<open>__init__\<close> created it.
\<close>

fun add_examples :: "(int \<times> 'a) list \<Rightarrow> 'a DataBase \<Rightarrow> (error + unit) \<times> 'a DataBase" where
  "add_examples [] d = (Inr (), d)"
| "add_examples ((index, example) # rest) d =
     (if index = int (length (processed_cache d))
      then add_examples rest (d\<lparr>processed_cache := processed_cache d @ [example]\<rparr>)
      else
        (case reorder_cache d of
           None \<Rightarrow> (Inl AttributeError, d)
         | Some r \<Rightarrow> add_examples rest (d\<lparr>reorder_cache := Some (AList.update index example r)\<rparr>)))"

text \<open>
  The loop \<^verbatim>\<open>while len(self._processed_cache) in self._reorder_cache\<close>: every round
  removes a key of the buffer.
\<close>

function drain_reorder_cache :: "'a list \<Rightarrow> 'a dict \<Rightarrow> 'a list \<times> 'a dict" where
  "drain_reorder_cache pc r =
     (case map_of r (int (length pc)) of
        None \<Rightarrow> (pc, r)
      | Some example \<Rightarrow> drain_reorder_cache (pc @ [example]) (AList.delete (int (length pc)) r))"
  by pat_completeness auto
termination
proof (relation "measure (\<lambda>(pc, r). length r)")
  show "wf (measure (\<lambda>(pc, r). length r))" by simp
next
  fix pc :: "'a list" and r :: "'a dict" and example
  assume "map_of r (int (length pc)) = Some example"
  then have "length (AList.delete (int (length pc)) r) < length r"
    by (induction r) (auto simp: less_Suc_eq_le length_delete_le split: if_splits)
  then show "((pc @ [example], AList.delete (int (length pc)) r), (pc, r))
      \<in> measure (\<lambda>(pc, r). length r)"
    by simp
qed

declare drain_reorder_cache.simps [simp del]

definition add_cached_examples :: "'a DataBase \<Rightarrow> int list \<Rightarrow> 'a list \<Rightarrow> (error + unit) \<times> 'a DataBase" where
  "add_cached_examples d indices examples =
     (case (if flag_delete_source_in_add_cache d
            then delete_source_examples indices d else (Inr (), d)) of
        (Inl e, d1) \<Rightarrow> (Inl e, d1)
      | (Inr u, d1) \<Rightarrow>
          (case add_examples (zip indices examples) d1 of
             (Inl e, d2) \<Rightarrow> (Inl e, d2)
           | (Inr u, d2) \<Rightarrow>
               (case reorder_cache d2 of
                  None \<Rightarrow> (Inl AttributeError, d2)
                | Some r \<Rightarrow>
                    (case drain_reorder_cache (processed_cache d2) r of
                       (pc, r') \<Rightarrow>
                         (Inr (),
                          d2\<lparr>processed_cache := pc, reorder_cache := Some r',
                             fully_cached :=
                               (if Some (int (length pc)) = dataset_size d2
                                then True else fully_cached d2)\<rparr>)))))"

text \<open>
  \<^verbatim>\<open>_prefetch_processed\<close>: \<^verbatim>\<open>extend\<close> appends the processed examples one by one,
  and keeps those appended before an exception.
\<close>

fun extend_processed :: "int list \<Rightarrow> 'a DataBase \<Rightarrow> (error + unit) \<times> 'a DataBase" where
  "extend_processed [] d = (Inr (), d)"
| "extend_processed (x # xs) d =
     (case source_getitem d x of
        (Inl e, d') \<Rightarrow> (Inl e, d')
      | (Inr raw_example, d') \<Rightarrow>
          extend_processed xs
            (d'\<lparr>processed_cache := processed_cache d' @ [process d' raw_example]\<rparr>))"

definition prefetch_processed :: "'a DataBase \<Rightarrow> int \<Rightarrow> (error + unit) \<times> 'a DataBase" where
  "prefetch_processed d index =
     (if int (length (processed_cache d)) \<le> index then
        (case extend_processed [int (length (processed_cache d))..index] d of
           (Inl e, d') \<Rightarrow> (Inl e, d')
         | (Inr u, d') \<Rightarrow>
             (Inr (),
              if Some (int (length (processed_cache d'))) = dataset_size d'
              then d'\<lparr>fully_cached := True\<rparr> else d'))
      else (Inr (), d))"

text \<open>
  \<^verbatim>\<open>_prefetch_source\<close> for an integer index. With random access nothing is
  prefetched: the size is returned when the index reaches it.
\<close>

definition prefetch_source :: "'a DataBase \<Rightarrow> int \<Rightarrow> (error + int option) \<times> 'a DataBase" where
  "prefetch_source d index =
     (if \<not> supports_random_access d then
        (case cached_source (source d) of
           None \<Rightarrow> (Inl AttributeError, d)
         | Some c \<Rightarrow>
             (case prefetch index c of
                (Inl e, c') \<Rightarrow>
                  (if e = StopIteration then
                     (let n = max_index c' + 1;
                          d1 = d\<lparr>source := set_cached_source (source d) c', dataset_size := Some n\<rparr>
                      in if flag_call_prefetch_processed d1 then
                           (case prefetch_processed d1 (n - 1) of
                              (Inl e', d2) \<Rightarrow> (Inl e', d2)
                            | (Inr u, d2) \<Rightarrow> (Inr (Some n), d2))
                         else (Inr (Some n), d1))
                   else (Inl e, d\<lparr>source := set_cached_source (source d) c'\<rparr>))
              | (Inr u, c') \<Rightarrow>
                  (let d1 = d\<lparr>source := set_cached_source (source d) c'\<rparr>
                   in if flag_call_prefetch_processed d1 then
                        (case prefetch_processed d1 index of
                           (Inl e', d2) \<Rightarrow> (Inl e', d2)
                         | (Inr u, d2) \<Rightarrow> (Inr None, d2))
                      else (Inr None, d1))))
      else
        (case dataset_size d of
           None \<Rightarrow> (Inl TypeError, d)
         | Some n \<Rightarrow> if index \<ge> n then (Inr (Some n), d) else (Inr None, d)))"

text \<open>\<^verbatim>\<open>DataBase.__len__\<close> and \<^verbatim>\<open>_start_iteration\<close>.\<close>

definition DataBase_len :: "'a DataBase \<Rightarrow> ((error + int) \<times> 'a DataBase) option" where
  "DataBase_len d =
     (case dataset_size d of
        None \<Rightarrow> prefetch_all_source (d\<lparr>warnings := warnings d @ [Warn_len_needs_traversal]\<rparr>)
      | Some n \<Rightarrow> Some (Inr n, d))"

definition start_iteration :: "'a DataBase \<Rightarrow> error + 'a DataBase" where
  "start_iteration d =
     (if \<not> supports_random_access d then
        (case cached_source (source d) of
           None \<Rightarrow> Inl AttributeError
         | Some c \<Rightarrow> Inr (d\<lparr>source := set_cached_source (source d) (reset c)\<rparr>))
      else Inr d)"

section \<open>Sequences of calls\<close>

text \<open>
  A caller of the cached source makes calls one after the other and catches what they
  raise; what matters afterwards is the state they leave.
\<close>

datatype cached_op = Prefetch int | Get int | Reset

fun run_op :: "cached_op \<Rightarrow> 'a CachedDataSource \<Rightarrow> 'a CachedDataSource" where
  "run_op (Prefetch index) c = snd (prefetch index c)"
| "run_op (Get index) c = snd (cached_getitem c index)"
| "run_op Reset c = reset c"

fun run_ops :: "cached_op list \<Rightarrow> 'a CachedDataSource \<Rightarrow> 'a CachedDataSource" where
  "run_ops [] c = c"
| "run_ops (a # as) c = run_ops as (run_op a c)"

text \<open>Reading the same index twice, from the cached source and from the engine.\<close>

definition cached_getitem_twice :: "'a CachedDataSource \<Rightarrow> int \<Rightarrow> (error + 'a) \<times> (error + 'a)" where
  "cached_getitem_twice c index =
     (fst (cached_getitem c index), fst (cached_getitem (snd (cached_getitem c index)) index))"

definition getitem_twice :: "'a DataBase \<Rightarrow> int \<Rightarrow> (error + 'a) \<times> (error + 'a)" where
  "getitem_twice d index =
     (fst (DataBase_getitem d index), fst (DataBase_getitem (snd (DataBase_getitem d index)) index))"

text \<open>
  Construct the engine, prefetch the source up to an index, then read that index twice.
  \<open>None\<close> when construction or the prefetch does not succeed.
\<close>

definition prefetch_then_getitem_twice ::
  "'a DataSource \<Rightarrow> hparams \<Rightarrow> ('a \<Rightarrow> 'a) \<Rightarrow> int \<Rightarrow> ((error + 'a) \<times> (error + 'a)) option" where
  "prefetch_then_getitem_twice src hp process_fn index =
     (case DataBase_init src hp process_fn of
        Some (Inr d) \<Rightarrow>
          (case prefetch_source d index of
             (Inr n, d1) \<Rightarrow> Some (getitem_twice d1 index)
           | (Inl e, d1) \<Rightarrow> None)
      | Some (Inl e) \<Rightarrow> None
      | None \<Rightarrow> None)"

text \<open>
  The two sides of the round trip: the processed cache of the engine constructed with
  laziness none, and the results of \<^verbatim>\<open>get(0)\<close>, ..., \<^verbatim>\<open>get(n - 1)\<close>, in this order,
  on an engine constructed with the given hyperparameters.
\<close>

fun getitem_each :: "int list \<Rightarrow> 'a DataBase \<Rightarrow> error + 'a list" where
  "getitem_each [] d = Inr []"
| "getitem_each (i # is) d =
     (case DataBase_getitem d i of
        (Inl e, d') \<Rightarrow> Inl e
      | (Inr x, d') \<Rightarrow>
          (case getitem_each is d' of Inl e \<Rightarrow> Inl e | Inr xs \<Rightarrow> Inr (x # xs)))"

definition eager_processed_cache ::
  "'a DataSource \<Rightarrow> hparams \<Rightarrow> ('a \<Rightarrow> 'a) \<Rightarrow> (error + 'a list) option" where
  "eager_processed_cache src hp process_fn =
     (case DataBase_init src (hp\<lparr>hp_lazy_strategy := Lazy_NONE\<rparr>) process_fn of
        None \<Rightarrow> None
      | Some (Inl e) \<Rightarrow> Some (Inl e)
      | Some (Inr d) \<Rightarrow> Some (Inr (processed_cache d)))"

definition lazy_getitem_all ::
  "'a DataSource \<Rightarrow> hparams \<Rightarrow> ('a \<Rightarrow> 'a) \<Rightarrow> int \<Rightarrow> (error + 'a list) option" where
  "lazy_getitem_all src hp process_fn n =
     (case DataBase_init src hp process_fn of
        None \<Rightarrow> None
      | Some (Inl e) \<Rightarrow> Some (Inl e)
      | Some (Inr d) \<Rightarrow> Some (getitem_each [0..n - 1] d))"

text \<open>
  Several calls of \<^verbatim>\<open>_add_cached_examples\<close>, one per batch of indices and examples,
  stopping at the first call that raises; and all the pairs these batches hold.
\<close>

definition batch_pairs :: "(int list \<times> 'a list) list \<Rightarrow> (int \<times> 'a) list" where
  "batch_pairs bs = concat (map (\<lambda>b. zip (fst b) (snd b)) bs)"

fun add_batches :: "(int list \<times> 'a list) list \<Rightarrow> 'a DataBase \<Rightarrow> (error + unit) \<times> 'a DataBase" where
  "add_batches [] d = (Inr (), d)"
| "add_batches (b # bs) d =
     (case add_cached_examples d (fst b) (snd b) of
        (Inl e, d') \<Rightarrow> (Inl e, d')
      | (Inr u, d') \<Rightarrow> add_batches bs d')"


section \<open>The truncated source\<close>

lemma truncated_iter_enough:
  "max_size - count \<le> int (length xs) \<Longrightarrow>
   truncated_iter count max_size (xs, e) = (take (nat (max_size - count)) xs, StopIteration)"
proof (induction xs arbitrary: count)
  case Nil
  then show ?case by (simp add: truncated_iter.simps [of count max_size "([], e)"])
next
  case (Cons x xs)
  show ?case
  proof (cases "count < max_size")
    case True
    with Cons.prems have "max_size - (count + 1) \<le> int (length xs)" by simp
    then have "truncated_iter (count + 1) max_size (xs, e)
        = (take (nat (max_size - (count + 1))) xs, StopIteration)"
      by (rule Cons.IH)
    moreover from True have "nat (max_size - count) = Suc (nat (max_size - (count + 1)))"
      by simp
    ultimately show ?thesis using True
      by (simp add: truncated_iter.simps [of count max_size "(x # xs, e)"])
  next
    case False
    then show ?thesis by (simp add: truncated_iter.simps [of count max_size "(x # xs, e)"])
  qed
qed

lemma truncated_iter_short:
  "int (length xs) < max_size - count \<Longrightarrow>
   truncated_iter count max_size (xs, e) = (xs, generator_raise e)"
proof (induction xs arbitrary: count)
  case Nil
  then show ?case by (simp add: truncated_iter.simps [of count max_size "([], e)"])
next
  case (Cons x xs)
  then have "int (length xs) < max_size - (count + 1)" by simp
  then have "truncated_iter (count + 1) max_size (xs, e) = (xs, generator_raise e)"
    by (rule Cons.IH)
  with Cons.prems show ?case
    by (simp add: truncated_iter.simps [of count max_size "(x # xs, e)"])
qed

text \<open>
  Claim C7. For every source \<open>S\<close> and bound \<open>N\<close>: \<^verbatim>\<open>get(i)\<close> on the truncated
  source raises the out-of-range error for every \<open>i \<ge> N\<close>; when \<open>S\<close> yields at least
  \<open>N\<close> items, iteration yields the first \<open>N\<close> of them and then stops cleanly;
  \<^verbatim>\<open>__len__\<close> is the minimum of \<^verbatim>\<open>len(S)\<close> and \<open>N\<close> when \<open>S\<close> has a length, and
  \<open>N\<close> when \<^verbatim>\<open>len(S)\<close> raises \<open>TypeError\<close>. In particular the truncation of the
  sequence 1 to 10 at 3 iterates over 1, 2, 3 and \<^verbatim>\<open>get(3)\<close> raises \<open>IndexError\<close>.
\<close>

theorem truncated_source_contract:
  "(\<forall>i. N \<le> i \<longrightarrow> getitem (TruncatedDataSource S N) i = Inl IndexError)
   \<and> (\<forall>xs e. source_iter S = (xs, e) \<and> N \<le> int (length xs) \<longrightarrow>
         source_iter (TruncatedDataSource S N) = (take (nat N) xs, StopIteration))
   \<and> (\<forall>n. py_len (len_method S) = Inr n \<longrightarrow>
         len_method (TruncatedDataSource S N) = Inr (min n N))
   \<and> (py_len (len_method S) = Inl TypeError \<longrightarrow>
         len_method (TruncatedDataSource S N) = Inr N)
   \<and> source_iter (TruncatedDataSource (SequenceDataSource [1, 2, 3, 4, 5, 6, 7, 8, 9, 10 :: int]) 3)
       = ([1, 2, 3], StopIteration)
   \<and> getitem (TruncatedDataSource (SequenceDataSource [1, 2, 3, 4, 5, 6, 7, 8, 9, 10 :: int]) 3) 3
       = Inl IndexError"
proof -
  have scenario:
    "source_iter (TruncatedDataSource (SequenceDataSource [1, 2, 3, 4, 5, 6, 7, 8, 9, 10 :: int]) 3)
       = ([1, 2, 3], StopIteration)"
    using truncated_iter_enough [of 3 0 "[1, 2, 3, 4, 5, 6, 7, 8, 9, 10 :: int]" StopIteration]
    by (simp add: numeral_3_eq_3)
  show ?thesis
    using scenario by (auto simp: truncated_iter_enough)
qed

theorem truncated_source_contract_witness:
  "getitem (TruncatedDataSource (IterDataSource [5, 6, 7 :: int]) 2) 2 = Inl IndexError
   \<and> source_iter (TruncatedDataSource (IterDataSource [5, 6, 7 :: int]) 2) = ([5, 6], StopIteration)
   \<and> len_method (TruncatedDataSource (SequenceDataSource [5, 6, 7 :: int]) 2) = Inr 2
   \<and> len_method (TruncatedDataSource (IterDataSource [5, 6, 7 :: int]) 2) = Inr 2"
proof -
  have len_seq: "py_len (len_method (SequenceDataSource [5, 6, 7 :: int])) = Inr 3"
    by (simp add: py_len_def)
  have len_iter: "py_len (len_method (IterDataSource [5, 6, 7 :: int])) = Inl TypeError"
    by (simp add: py_len_def)
  have it: "source_iter (IterDataSource [5, 6, 7 :: int]) = ([5, 6, 7], StopIteration)
      \<and> (2::int) \<le> int (length [5, 6, 7 :: int])"
    by simp
  from truncated_source_contract [of 2 "IterDataSource [5, 6, 7 :: int]"]
       truncated_source_contract [of 2 "SequenceDataSource [5, 6, 7 :: int]"]
       len_seq len_iter it
  show ?thesis by (simp add: numeral_2_eq_2)
qed

text \<open>
  Claim C9. When the wrapped source yields fewer than \<^verbatim>\<open>max_size\<close> items, iterating
  the truncated source yields them all and then raises instead of stopping cleanly: the
  \<open>StopIteration\<close> of \<^verbatim>\<open>next(iterator)\<close> escapes the generator body and reaches the
  consumer as \<open>RuntimeError\<close> (under the generator semantics of Python 3.7 and later).
\<close>

theorem truncated_iter_short_source_raises:
  assumes "source_iter S = (xs, e)" and "int (length xs) < N"
  shows "source_iter (TruncatedDataSource S N) = (xs, generator_raise e)
         \<and> generator_raise e \<noteq> StopIteration
         \<and> (e = StopIteration \<longrightarrow> source_iter (TruncatedDataSource S N) = (xs, RuntimeError))"
  using assms by (simp add: truncated_iter_short generator_raise_def)

theorem truncated_iter_short_source_raises_witness:
  "source_iter (TruncatedDataSource (SequenceDataSource [1, 2 :: int]) 3) = ([1, 2], RuntimeError)"
proof -
  have "source_iter (SequenceDataSource [1, 2 :: int]) = ([1, 2], StopIteration)" by simp
  moreover have "int (length [1, 2 :: int]) < 3" by simp
  ultimately show ?thesis
    using truncated_iter_short_source_raises [of "SequenceDataSource [1, 2 :: int]" "[1, 2]" StopIteration 3]
    by blast
qed

section \<open>Construction of the engine\<close>

lemma prefetch_all_source_fields:
  "prefetch_all_source d = Some (res, d') \<Longrightarrow>
   cache_strategy d' = cache_strategy d \<and> lazy_strategy d' = lazy_strategy d
   \<and> (\<exists>ws. warnings d' = warnings d @ ws)"
  by (auto simp: prefetch_all_source_def prefetch_all_except_def
      split: option.splits prod.splits sum.splits if_splits)

lemma DataBase_init_strategies:
  assumes "DataBase_init src hp f = Some (Inr d)"
  shows "lazy_strategy d = hp_lazy_strategy hp
     \<and> cache_strategy d = fst (resolve_strategies (hp_lazy_strategy hp) (hp_cache_strategy hp))
     \<and> (\<exists>ws. warnings d
           = snd (resolve_strategies (hp_lazy_strategy hp) (hp_cache_strategy hp)) @ ws)"
  using assms
  by (auto simp: DataBase_init_def Let_def
      split: sum.splits prod.splits if_splits option.splits
      dest!: prefetch_all_source_fields)

text \<open>
  Claim C3. Construction resolves the requested pair of strategies as follows. With
  laziness none the cache strategy becomes processed whatever was requested, with a
  warning exactly when something else was requested. With laziness process a requested
  cache none becomes loaded, with a warning, and the other values stay. With laziness
  all every requested value stays, without warning. The engine that construction
  returns holds the resolved cache strategy, and its warnings start with those of the
  resolution.
\<close>

theorem resolve_strategies_policy:
  "(\<forall>c. fst (resolve_strategies Lazy_NONE c) = Cache_PROCESSED
        \<and> snd (resolve_strategies Lazy_NONE c)
            = (if c \<noteq> Cache_PROCESSED then [Warn_equivalent_to_processed c] else []))
   \<and> resolve_strategies Lazy_PROCESS Cache_NONE = (Cache_LOADED, [Warn_equivalent_to_loaded])
   \<and> (\<forall>c. c \<noteq> Cache_NONE \<longrightarrow> resolve_strategies Lazy_PROCESS c = (c, []))
   \<and> (\<forall>c. resolve_strategies Lazy_ALL c = (c, []))
   \<and> (\<forall>src f d. DataBase_init src hp f = Some (Inr d) \<longrightarrow>
         cache_strategy d = fst (resolve_strategies (hp_lazy_strategy hp) (hp_cache_strategy hp))
         \<and> (\<exists>ws. warnings d
               = snd (resolve_strategies (hp_lazy_strategy hp) (hp_cache_strategy hp)) @ ws))"
proof -
  have "(\<forall>c. fst (resolve_strategies Lazy_NONE c) = Cache_PROCESSED
        \<and> snd (resolve_strategies Lazy_NONE c)
            = (if c \<noteq> Cache_PROCESSED then [Warn_equivalent_to_processed c] else []))
   \<and> resolve_strategies Lazy_PROCESS Cache_NONE = (Cache_LOADED, [Warn_equivalent_to_loaded])
   \<and> (\<forall>c. c \<noteq> Cache_NONE \<longrightarrow> resolve_strategies Lazy_PROCESS c = (c, []))
   \<and> (\<forall>c. resolve_strategies Lazy_ALL c = (c, []))"
    by (simp add: resolve_strategies_def)
  moreover have "cache_strategy d = fst (resolve_strategies (hp_lazy_strategy hp) (hp_cache_strategy hp))
         \<and> (\<exists>ws. warnings d
               = snd (resolve_strategies (hp_lazy_strategy hp) (hp_cache_strategy hp)) @ ws)"
    if "DataBase_init src hp f = Some (Inr d)" for src f and d :: "'a DataBase"
    using DataBase_init_strategies [OF that] by blast
  ultimately show ?thesis by blast
qed

theorem resolve_strategies_policy_witness:
  "resolve_strategies Lazy_NONE Cache_NONE
     = (Cache_PROCESSED, [Warn_equivalent_to_processed Cache_NONE])
   \<and> resolve_strategies Lazy_PROCESS Cache_PROCESSED = (Cache_PROCESSED, [])
   \<and> resolve_strategies Lazy_ALL Cache_NONE = (Cache_NONE, [])
   \<and> (\<exists>d. DataBase_init (SequenceDataSource [7 :: nat])
          \<lparr>hp_lazy_strategy = Lazy_PROCESS, hp_cache_strategy = Cache_NONE,
           hp_num_parallel_calls = 1, hp_parallelize_processing = True,
           hp_max_dataset_size = - 1\<rparr> Suc = Some (Inr d)
        \<and> cache_strategy d = Cache_LOADED
        \<and> (\<exists>ws. warnings d = Warn_equivalent_to_loaded # ws))"
proof -
  let ?hp = "\<lparr>hp_lazy_strategy = Lazy_PROCESS, hp_cache_strategy = Cache_NONE,
           hp_num_parallel_calls = 1, hp_parallelize_processing = True,
           hp_max_dataset_size = - 1\<rparr>"
  note policy = resolve_strategies_policy [of ?hp]
  have ne: "Cache_PROCESSED \<noteq> Cache_NONE" by simp
  obtain d :: "nat DataBase" where d: "DataBase_init (SequenceDataSource [7 :: nat]) ?hp Suc = Some (Inr d)"
    by (simp add: DataBase_init_def probe_random_access_def resolve_strategies_def
        py_len_def list_getitem_def)
  from policy [THEN conjunct1, THEN spec, of Cache_NONE]
  have none: "resolve_strategies Lazy_NONE Cache_NONE
     = (Cache_PROCESSED, [Warn_equivalent_to_processed Cache_NONE])"
    by (simp add: prod_eq_iff)
  from policy have loaded: "resolve_strategies Lazy_PROCESS Cache_NONE
     = (Cache_LOADED, [Warn_equivalent_to_loaded])"
    by (rule conjunct2 [THEN conjunct1])
  from policy ne have processed: "resolve_strategies Lazy_PROCESS Cache_PROCESSED = (Cache_PROCESSED, [])"
    by blast
  from policy have all: "resolve_strategies Lazy_ALL Cache_NONE = (Cache_NONE, [])"
    by blast
  from policy d have "cache_strategy d = fst (resolve_strategies (hp_lazy_strategy ?hp) (hp_cache_strategy ?hp))
         \<and> (\<exists>ws. warnings d
               = snd (resolve_strategies (hp_lazy_strategy ?hp) (hp_cache_strategy ?hp)) @ ws)"
    by blast
  with loaded have "cache_strategy d = Cache_LOADED \<and> (\<exists>ws. warnings d = Warn_equivalent_to_loaded # ws)"
    by simp
  with d none processed all show ?thesis by blast
qed

text \<open>
  Claim C8. Constructing the engine with a laziness other than none over an empty
  sequence source raises \<open>IndexError\<close>: the probe evaluates element 0 and catches
  \<open>TypeError\<close> only. This holds for every configuration whose maximum dataset size is
  \<open>-1\<close> (no limit) or a size.
\<close>

theorem empty_source_lazy_construction_fails:
  assumes "hp_lazy_strategy hp \<noteq> Lazy_NONE" and "- 1 \<le> hp_max_dataset_size hp"
  shows "DataBase_init (SequenceDataSource []) hp f = Some (Inl IndexError)"
  using assms
  by (auto simp: DataBase_init_def probe_random_access_def py_len_def list_getitem_def Let_def)

theorem empty_source_lazy_construction_fails_witness:
  "DataBase_init (SequenceDataSource [])
     \<lparr>hp_lazy_strategy = Lazy_ALL, hp_cache_strategy = Cache_LOADED, hp_num_parallel_calls = 1,
      hp_parallelize_processing = True, hp_max_dataset_size = - 1\<rparr> Suc
   = Some (Inl IndexError)"
  using empty_source_lazy_construction_fails
    [of "\<lparr>hp_lazy_strategy = Lazy_ALL, hp_cache_strategy = Cache_LOADED, hp_num_parallel_calls = 1,
          hp_parallelize_processing = True, hp_max_dataset_size = - 1\<rparr>" Suc]
  by simp

section \<open>The cached data source: prefetching and reading\<close>

lemma prefetch_noop: "index \<le> max_index c \<Longrightarrow> prefetch index c = (Inr (), c)"
  by (simp add: prefetch.simps [of index c])

lemma prefetch_exhausted:
  assumes "c_iter c = ([], StopIteration)" and "max_index c < index"
  shows "prefetch index c = (Inl StopIteration, c)"
proof -
  from assms(1) have "c\<lparr>c_iter := ([], StopIteration)\<rparr> = c" by (cases c) simp
  with assms show ?thesis by (simp add: prefetch.simps [of index c])
qed

lemma prefetch_result:
  "prefetch index c = (r, c') \<Longrightarrow>
     c_source c' = c_source c \<and> max_index c \<le> max_index c' \<and>
     (case r of
        Inr u \<Rightarrow> index \<le> max_index c'
          \<and> max_index c' + int (length (fst (c_iter c'))) = max_index c + int (length (fst (c_iter c)))
          \<and> snd (c_iter c') = snd (c_iter c)
          \<and> max_index c' = max index (max_index c)
      | Inl e \<Rightarrow> e = snd (c_iter c) \<and> c_iter c' = ([], StopIteration)
          \<and> max_index c' = max_index c + int (length (fst (c_iter c)))
          \<and> max_index c' < index)"
proof (induction index c arbitrary: r c' rule: prefetch.induct)
  case (1 index c)
  show ?case
  proof (cases "max_index c < index")
    case False
    with "1.prems" show ?thesis by (auto simp: prefetch.simps [of index c])
  next
    case True
    obtain xs e where it: "c_iter c = (xs, e)" by (cases "c_iter c")
    show ?thesis
    proof (cases xs)
      case Nil
      with True it "1.prems" show ?thesis by (auto simp: prefetch.simps [of index c])
    next
      case (Cons x xs')
      let ?c1 = "c\<lparr>c_iter := (xs', e), max_index := max_index c + 1,
                   cache := cache_store (cache c) (max_index c + 1) x\<rparr>"
      from True it Cons "1.prems" have step: "prefetch index ?c1 = (r, c')"
        by (simp add: prefetch.simps [of index c])
      from True it Cons have nx: "next_it (c_iter c) = (Inr x, (xs', e))" by simp
      have IH: "c_source c' = c_source ?c1 \<and> max_index ?c1 \<le> max_index c' \<and>
           (case r of
              Inr u \<Rightarrow> index \<le> max_index c'
                \<and> max_index c' + int (length (fst (c_iter c'))) = max_index ?c1 + int (length (fst (c_iter ?c1)))
                \<and> snd (c_iter c') = snd (c_iter ?c1)
                \<and> max_index c' = max index (max_index ?c1)
            | Inl e \<Rightarrow> e = snd (c_iter ?c1) \<and> c_iter c' = ([], StopIteration)
                \<and> max_index c' = max_index ?c1 + int (length (fst (c_iter ?c1)))
                \<and> max_index c' < index)"
        using "1.IH" [OF True nx [symmetric] refl step] .
      show ?thesis
      proof (cases r)
        case (Inl e')
        with IH it Cons show ?thesis by simp
      next
        case (Inr u)
        with IH it Cons True show ?thesis by auto
      qed
    qed
  qed
qed


lemma prefetch_list_cache:
  "prefetch index c = (r, c') \<Longrightarrow> cache c = ListCache l \<Longrightarrow>
     \<exists>ys. cache c' = ListCache (l @ ys) \<and> ys @ fst (c_iter c') = fst (c_iter c)
        \<and> max_index c' = max_index c + int (length ys)"
proof (induction index c arbitrary: r c' l rule: prefetch.induct)
  case (1 index c)
  show ?case
  proof (cases "max_index c < index")
    case False
    with "1.prems" show ?thesis by (auto simp: prefetch.simps [of index c])
  next
    case True
    obtain xs e where it: "c_iter c = (xs, e)" by (cases "c_iter c")
    show ?thesis
    proof (cases xs)
      case Nil
      with True it "1.prems" show ?thesis by (auto simp: prefetch.simps [of index c])
    next
      case (Cons x xs')
      let ?c1 = "c\<lparr>c_iter := (xs', e), max_index := max_index c + 1,
                   cache := cache_store (cache c) (max_index c + 1) x\<rparr>"
      from True it Cons "1.prems" have step: "prefetch index ?c1 = (r, c')"
        by (simp add: prefetch.simps [of index c])
      from True it Cons have nx: "next_it (c_iter c) = (Inr x, (xs', e))" by simp
      from "1.prems"(2) have ch: "cache ?c1 = ListCache (l @ [x])"
        by (simp add: cache_store_def)
      from "1.IH" [OF True nx [symmetric] refl step ch]
      obtain ys where ys: "cache c' = ListCache ((l @ [x]) @ ys)"
          "ys @ fst (c_iter c') = fst (c_iter ?c1)"
          "max_index c' = max_index ?c1 + int (length ys)"
        by blast
      with it Cons have "cache c' = ListCache (l @ (x # ys)) \<and> (x # ys) @ fst (c_iter c') = fst (c_iter c)
          \<and> max_index c' = max_index c + int (length (x # ys))"
        by simp
      then show ?thesis by blast
    qed
  qed
qed

lemma cached_getitem_max_index: "max_index (snd (cached_getitem c index)) = max_index c"
  by (simp add: cached_getitem_def split: cache.splits sum.splits)

lemma run_op_max_index_mono: "a \<noteq> Reset \<Longrightarrow> max_index c \<le> max_index (run_op a c)"
proof (cases a)
  case (Prefetch index)
  obtain r c' where p: "prefetch index c = (r, c')" by (cases "prefetch index c")
  from prefetch_result [OF p] p Prefetch show ?thesis by simp
next
  case (Get index)
  then show ?thesis by (simp add: cached_getitem_max_index)
next
  case Reset
  assume "a \<noteq> Reset"
  with Reset show ?thesis by simp
qed

lemma run_ops_max_index_mono: "Reset \<notin> set ops \<Longrightarrow> max_index c \<le> max_index (run_ops ops c)"
proof (induction ops arbitrary: c)
  case Nil
  then show ?case by simp
next
  case (Cons a ops)
  then have "a \<noteq> Reset" and "Reset \<notin> set ops" by auto
  from run_op_max_index_mono [OF this(1), of c] Cons.IH [OF this(2), of "run_op a c"]
  show ?case by simp
qed

lemma prefetch_lower_after_higher:
  assumes "j < i"
  shows "prefetch j (snd (prefetch i c)) = (fst (prefetch j (snd (prefetch i c))), snd (prefetch i c))"
proof -
  obtain r c1 where p: "prefetch i c = (r, c1)" by (cases "prefetch i c")
  show ?thesis
  proof (cases "j \<le> max_index c1")
    case True
    with p show ?thesis by (simp add: prefetch_noop)
  next
    case False
    with prefetch_result [OF p] assms have "c_iter c1 = ([], StopIteration)"
      by (cases r) auto
    with False p show ?thesis by (simp add: prefetch_exhausted)
  qed
qed


text \<open>
  Claim C6. Over any sequence of \<^verbatim>\<open>prefetch\<close> and \<^verbatim>\<open>get\<close> calls, whatever they
  raise, \<^verbatim>\<open>max_index\<close> does not decrease. \<^verbatim>\<open>reset\<close> sets it to \<open>-1\<close> when erasing
  after access and leaves it alone otherwise. For \<open>j < i\<close>, the call \<^verbatim>\<open>prefetch(j)\<close>
  after \<^verbatim>\<open>prefetch(i)\<close> changes neither \<^verbatim>\<open>max_index\<close> nor the buffer.
\<close>

theorem max_index_monotone:
  "(Reset \<notin> set ops \<longrightarrow> max_index c \<le> max_index (run_ops ops c))
   \<and> max_index (reset c) = (if erase_after_access c then - 1 else max_index c)
   \<and> (j < i \<longrightarrow>
        max_index (snd (prefetch j (snd (prefetch i c)))) = max_index (snd (prefetch i c))
        \<and> cache (snd (prefetch j (snd (prefetch i c)))) = cache (snd (prefetch i c)))"
proof -
  have "j < i \<Longrightarrow> snd (prefetch j (snd (prefetch i c))) = snd (prefetch i c)"
    using prefetch_lower_after_higher [of j i c] by (metis snd_conv)
  then show ?thesis
    by (simp add: run_ops_max_index_mono reset_def)
qed


theorem max_index_monotone_witness:
  "max_index (CachedDataSource_init (IterDataSource [4, 5, 6 :: nat]) True)
     \<le> max_index (run_ops [Prefetch 1, Get 0, Prefetch 7]
           (CachedDataSource_init (IterDataSource [4, 5, 6 :: nat]) True))
   \<and> max_index (reset (CachedDataSource_init (IterDataSource [4, 5, 6 :: nat]) True)) = - 1
   \<and> cache (snd (prefetch 1 (snd (prefetch 2
         (CachedDataSource_init (IterDataSource [4, 5, 6 :: nat]) True)))))
       = cache (snd (prefetch 2 (CachedDataSource_init (IterDataSource [4, 5, 6 :: nat]) True)))"
proof -
  have ops: "Reset \<notin> set [Prefetch 1, Get 0, Prefetch 7]" by simp
  have lt: "(1::int) < 2" by simp
  have er: "erase_after_access (CachedDataSource_init (IterDataSource [4, 5, 6 :: nat]) True)"
    by (simp add: erase_after_access_def CachedDataSource_init_def)
  from max_index_monotone
         [of "[Prefetch 1, Get 0, Prefetch 7]"
             "CachedDataSource_init (IterDataSource [4, 5, 6 :: nat]) True" 1 2]
       ops lt er
  show ?thesis by simp
qed

lemma run_ops_retain:
  "cache c = ListCache l \<Longrightarrow> l @ fst (c_iter c) = xs \<Longrightarrow> max_index c = int (length l) - 1 \<Longrightarrow>
   \<exists>l'. cache (run_ops ops c) = ListCache l' \<and> l' @ fst (c_iter (run_ops ops c)) = xs
      \<and> max_index (run_ops ops c) = int (length l') - 1"
proof (induction ops arbitrary: c l)
  case Nil
  then show ?case by simp
next
  case (Cons a ops)
  have "\<exists>l1. cache (run_op a c) = ListCache l1 \<and> l1 @ fst (c_iter (run_op a c)) = xs
      \<and> max_index (run_op a c) = int (length l1) - 1"
  proof (cases a)
    case (Prefetch index)
    obtain r c' where p: "prefetch index c = (r, c')" by (cases "prefetch index c")
    from prefetch_list_cache [OF p Cons.prems(1)] Cons.prems p Prefetch show ?thesis by auto
  next
    case (Get index)
    with Cons.prems show ?thesis by (simp add: cached_getitem_def split: sum.splits)
  next
    case Reset
    with Cons.prems show ?thesis by (simp add: reset_def erase_after_access_def)
  qed
  then obtain l1 where "cache (run_op a c) = ListCache l1" "l1 @ fst (c_iter (run_op a c)) = xs"
      "max_index (run_op a c) = int (length l1) - 1"
    by blast
  from Cons.IH [OF this] show ?case by simp
qed


text \<open>
  Claim C10. For a cached source constructed in retain mode, after every sequence of
  \<^verbatim>\<open>prefetch\<close>, \<^verbatim>\<open>get\<close> and \<^verbatim>\<open>reset\<close> calls the buffer is the list of the first
  \<open>max_index + 1\<close> items of the underlying source, in source order, and has that length.
  In such a state \<^verbatim>\<open>get\<close> and \<^verbatim>\<open>reset\<close> leave the whole state as it is, and
  \<^verbatim>\<open>prefetch\<close> appends to the end of the buffer.
\<close>

theorem retained_buffer_is_source_prefix:
  assumes "c = run_ops ops (CachedDataSource_init src False)"
  shows "cache c = ListCache (take (nat (max_index c + 1)) (fst (source_iter src)))
     \<and> int (length (take (nat (max_index c + 1)) (fst (source_iter src)))) = max_index c + 1
     \<and> (\<forall>index. snd (cached_getitem c index) = c)
     \<and> reset c = c
     \<and> (\<forall>index. \<exists>ys. cache (snd (prefetch index c))
            = ListCache (take (nat (max_index c + 1)) (fst (source_iter src)) @ ys))"
proof -
  have "\<exists>l. cache c = ListCache l \<and> l @ fst (c_iter c) = fst (source_iter src)
      \<and> max_index c = int (length l) - 1"
    unfolding assms
    by (rule run_ops_retain) (simp_all add: CachedDataSource_init_def)
  then obtain l where l: "cache c = ListCache l" "l @ fst (c_iter c) = fst (source_iter src)"
      "max_index c = int (length l) - 1"
    by blast
  from l(2) have "take (length l) (fst (source_iter src)) = l" by (metis append_eq_conv_conj)
  with l(3) have tk: "take (nat (max_index c + 1)) (fst (source_iter src)) = l" by simp
  have pre: "\<exists>ys. cache (snd (prefetch index c)) = ListCache (l @ ys)" for index
  proof -
    obtain r c' where p: "prefetch index c = (r, c')" by (cases "prefetch index c")
    from prefetch_list_cache [OF p l(1)] p show ?thesis by auto
  qed
  from l tk pre show ?thesis
    by (simp add: cached_getitem_def reset_def erase_after_access_def split: sum.splits)
qed

theorem retained_buffer_is_source_prefix_witness:
  "cache (run_ops [Prefetch 1, Get 0, Reset, Prefetch 0]
            (CachedDataSource_init (IterDataSource [4, 5, 6 :: nat]) False))
     = ListCache (take (nat (max_index (run_ops [Prefetch 1, Get 0, Reset, Prefetch 0]
            (CachedDataSource_init (IterDataSource [4, 5, 6 :: nat]) False)) + 1)) [4, 5, 6])"
  using retained_buffer_is_source_prefix
          [OF refl, of "[Prefetch 1, Get 0, Reset, Prefetch 0]" "IterDataSource [4, 5, 6 :: nat]"]
  by simp

section \<open>Prefetching the whole source\<close>

lemma cached_source_set [simp]:
  "cached_source s = Some c \<Longrightarrow> cached_source (set_cached_source s c') = Some c'"
  by (cases s) simp_all

lemma run_ops_consumed:
  "max_index c + 1 + int (length (fst (c_iter c))) = int (length xs) \<Longrightarrow>
   snd (c_iter c) = StopIteration \<Longrightarrow> source_iter (c_source c) = (xs, StopIteration) \<Longrightarrow>
   max_index (run_ops ops c) + 1 + int (length (fst (c_iter (run_ops ops c)))) = int (length xs)
   \<and> snd (c_iter (run_ops ops c)) = StopIteration"
proof (induction ops arbitrary: c)
  case Nil
  then show ?case by simp
next
  case (Cons a ops)
  have "max_index (run_op a c) + 1 + int (length (fst (c_iter (run_op a c)))) = int (length xs)
      \<and> snd (c_iter (run_op a c)) = StopIteration
      \<and> source_iter (c_source (run_op a c)) = (xs, StopIteration)"
  proof (cases a)
    case (Prefetch index)
    obtain r c' where p: "prefetch index c = (r, c')" by (cases "prefetch index c")
    from prefetch_result [OF p] Cons.prems p Prefetch show ?thesis by (cases r) auto
  next
    case (Get index)
    with Cons.prems show ?thesis
      by (auto simp: cached_getitem_def split: cache.splits sum.splits)
  next
    case Reset
    with Cons.prems show ?thesis by (simp add: reset_def)
  qed
  then show ?case using Cons.IH [of "run_op a c"] by simp
qed

lemma prefetch_doubling_terminates:
  assumes "0 < target"
  shows "\<exists>c'. prefetch_doubling target c = Some (snd (c_iter c), c')
           \<and> max_index c' = max_index c + int (length (fst (c_iter c)))"
  using assms
proof (induction "nat (max_index c + int (length (fst (c_iter c))) - target)"
    arbitrary: target c rule: less_induct)
  case less
  obtain r c1 where p: "prefetch (target * 2) c = (r, c1)" by (cases "prefetch (target * 2) c")
  note res = prefetch_result [OF p]
  show ?case
  proof (cases r)
    case (Inl e)
    with res p show ?thesis by (subst prefetch_doubling.simps) simp
  next
    case (Inr u)
    with res have reach: "target * 2 \<le> max_index c1"
      and total: "max_index c1 + int (length (fst (c_iter c1))) = max_index c + int (length (fst (c_iter c)))"
      and tm: "snd (c_iter c1) = snd (c_iter c)"
      by simp_all
    from reach total less.prems
    have "nat (max_index c1 + int (length (fst (c_iter c1))) - target * 2)
        < nat (max_index c + int (length (fst (c_iter c))) - target)"
      by simp
    moreover from less.prems have "0 < target * 2" by simp
    ultimately obtain c' where "prefetch_doubling (target * 2) c1 = Some (snd (c_iter c1), c')"
        "max_index c' = max_index c1 + int (length (fst (c_iter c1)))"
      using less.hyps by blast
    with Inr p total tm show ?thesis by (subst prefetch_doubling.simps) simp
  qed
qed


text \<open>
  Claim C4. Let the source be sequential and yield the finitely many items \<open>xs\<close> before
  its end-of-source signal, and let the engine hold a cached source over it, in any
  state that calls of \<^verbatim>\<open>prefetch\<close>, \<^verbatim>\<open>get\<close> and \<^verbatim>\<open>reset\<close> can have left. Then
  \<^verbatim>\<open>_prefetch_all_source\<close> returns: its result and \<^verbatim>\<open>dataset_size\<close> are the number of
  items of the source, which is \<^verbatim>\<open>max_index + 1\<close>, and the warning is emitted exactly
  when the first target \<open>10^8\<close> was reached.
\<close>

theorem prefetch_all_source_terminates:
  assumes "source_iter src = (xs, StopIteration)"
      and "cached_source (source d) = Some (run_ops ops (CachedDataSource_init src erase))"
  shows "\<exists>d'. prefetch_all_source d = Some (Inr (int (length xs)), d')
           \<and> dataset_size d' = Some (int (length xs))
           \<and> map_option max_index (cached_source (source d')) = Some (int (length xs) - 1)
           \<and> warnings d' = warnings d @ (if 10 ^ 8 < length xs then [Warn_possibly_infinite] else [])"
proof -
  let ?c = "run_ops ops (CachedDataSource_init src erase)"
  have inv: "max_index ?c + 1 + int (length (fst (c_iter ?c))) = int (length xs)
      \<and> snd (c_iter ?c) = StopIteration"
    by (rule run_ops_consumed) (simp_all add: CachedDataSource_init_def assms(1))
  obtain r c1 where p: "prefetch (10 ^ 8) ?c = (r, c1)" by (cases "prefetch (10 ^ 8) ?c")
  note res = prefetch_result [OF p]
  show ?thesis
  proof (cases r)
    case (Inl e)
    with res inv have "e = StopIteration" "max_index c1 + 1 = int (length xs)" "\<not> 10 ^ 8 < length xs"
      by auto
    with Inl p assms(2) show ?thesis
      by (simp add: prefetch_all_source_def prefetch_all_except_def)
  next
    case (Inr u)
    with res inv have c1: "max_index c1 + 1 + int (length (fst (c_iter c1))) = int (length xs)"
        "snd (c_iter c1) = StopIteration" "10 ^ 8 \<le> max_index c1"
      by auto
    then have big: "10 ^ 8 < length xs" by (simp add: nat_less_iff)
    obtain c2 where c2: "prefetch_doubling (10 ^ 8) c1 = Some (snd (c_iter c1), c2)"
        "max_index c2 = max_index c1 + int (length (fst (c_iter c1)))"
      using prefetch_doubling_terminates [of "10 ^ 8" c1] by auto
    with c1 have "max_index c2 + 1 = int (length xs)" by simp
    with Inr p assms(2) c2 c1(2) big show ?thesis
      by (simp add: prefetch_all_source_def prefetch_all_except_def)
  qed
qed

theorem prefetch_all_source_terminates_witness:
  "\<exists>d. DataBase_init (IterDataSource [4, 5, 6 :: nat])
          \<lparr>hp_lazy_strategy = Lazy_ALL, hp_cache_strategy = Cache_NONE, hp_num_parallel_calls = 1,
           hp_parallelize_processing = True, hp_max_dataset_size = - 1\<rparr> Suc = Some (Inr d)
      \<and> (\<exists>d'. prefetch_all_source d = Some (Inr 3, d') \<and> dataset_size d' = Some 3
            \<and> map_option max_index (cached_source (source d')) = Some 2)"
proof -
  obtain d where d: "DataBase_init (IterDataSource [4, 5, 6 :: nat])
          \<lparr>hp_lazy_strategy = Lazy_ALL, hp_cache_strategy = Cache_NONE, hp_num_parallel_calls = 1,
           hp_parallelize_processing = True, hp_max_dataset_size = - 1\<rparr> Suc = Some (Inr d)"
      and c: "cached_source (source d)
        = Some (run_ops [] (CachedDataSource_init (IterDataSource [4, 5, 6 :: nat]) True))"
    by (simp add: DataBase_init_def probe_random_access_def py_len_def resolve_strategies_def)
  have it: "source_iter (IterDataSource [4, 5, 6 :: nat]) = ([4, 5, 6], StopIteration)" by simp
  from prefetch_all_source_terminates [OF it c] d show ?thesis by auto
qed

section \<open>Reading the same index twice\<close>

lemma prefetch_dict_keys:
  "prefetch index c = (r, c') \<Longrightarrow> cache c = DictCache d \<Longrightarrow>
     \<exists>d'. cache c' = DictCache d'
        \<and> fst ` set d' \<subseteq> fst ` set d \<union> {max_index c + 1 .. max_index c'}"
proof (induction index c arbitrary: r c' d rule: prefetch.induct)
  case (1 index c)
  show ?case
  proof (cases "max_index c < index")
    case False
    with "1.prems" show ?thesis by (auto simp: prefetch.simps [of index c])
  next
    case True
    obtain xs e where it: "c_iter c = (xs, e)" by (cases "c_iter c")
    show ?thesis
    proof (cases xs)
      case Nil
      with True it "1.prems" show ?thesis by (auto simp: prefetch.simps [of index c])
    next
      case (Cons x xs')
      let ?c1 = "c\<lparr>c_iter := (xs', e), max_index := max_index c + 1,
                   cache := cache_store (cache c) (max_index c + 1) x\<rparr>"
      from True it Cons "1.prems" have step: "prefetch index ?c1 = (r, c')"
        by (simp add: prefetch.simps [of index c])
      from True it Cons have nx: "next_it (c_iter c) = (Inr x, (xs', e))" by simp
      from "1.prems"(2) have ch: "cache ?c1 = DictCache (AList.update (max_index c + 1) x d)"
        by (simp add: cache_store_def)
      from "1.IH" [OF True nx [symmetric] refl step ch] obtain d' where
        d': "cache c' = DictCache d'"
          "fst ` set d' \<subseteq> fst ` set (AList.update (max_index c + 1) x d)
             \<union> {max_index ?c1 + 1 .. max_index c'}"
        by blast
      from prefetch_result [OF step] have "max_index ?c1 \<le> max_index c'" by simp
      with d'(2) have "fst ` set d' \<subseteq> fst ` set d \<union> {max_index c + 1 .. max_index c'}"
        by (auto simp: dom_update)
      with d'(1) show ?thesis by blast
    qed
  qed
qed

lemma run_ops_dict_keys:
  assumes "cache c = DictCache d" and "- 1 \<le> max_index c"
    and "\<forall>k \<in> fst ` set d. 0 \<le> k \<and> (bounded \<longrightarrow> k \<le> H)"
    and "bounded \<longrightarrow> (\<forall>n \<le> length ops. max_index (run_ops (take n ops) c) \<le> H)"
  shows "\<exists>d'. cache (run_ops ops c) = DictCache d'
     \<and> (\<forall>k \<in> fst ` set d'. 0 \<le> k \<and> (bounded \<longrightarrow> k \<le> H))"
  using assms
proof (induction ops arbitrary: c d)
  case Nil
  then show ?case by simp
next
  case (Cons a ops)
  let ?c1 = "run_op a c"
  have later: "bounded \<longrightarrow> (\<forall>n \<le> length ops. max_index (run_ops (take n ops) ?c1) \<le> H)"
  proof (intro impI allI)
    fix n assume b: bounded and n: "n \<le> length ops"
    from Cons.prems(4) b have "\<forall>n \<le> length (a # ops). max_index (run_ops (take n (a # ops)) c) \<le> H"
      by simp
    from this [rule_format, of "Suc n"] n show "max_index (run_ops (take n ops) ?c1) \<le> H" by simp
  qed
  from later have now: "bounded \<longrightarrow> max_index ?c1 \<le> H"
    by (auto dest: spec [of _ 0])
  have "\<exists>d1. cache ?c1 = DictCache d1 \<and> - 1 \<le> max_index ?c1
      \<and> (\<forall>k \<in> fst ` set d1. 0 \<le> k \<and> (bounded \<longrightarrow> k \<le> H))"
  proof (cases a)
    case (Prefetch index)
    obtain r c' where p: "prefetch index c = (r, c')" by (cases "prefetch index c")
    from prefetch_dict_keys [OF p Cons.prems(1)] obtain d1 where
      d1: "cache c' = DictCache d1" "fst ` set d1 \<subseteq> fst ` set d \<union> {max_index c + 1 .. max_index c'}"
      by blast
    from prefetch_result [OF p] have mono: "max_index c \<le> max_index c'" by simp
    from p Prefetch have c1: "?c1 = c'" by simp
    have "\<forall>k \<in> fst ` set d1. 0 \<le> k \<and> (bounded \<longrightarrow> k \<le> H)"
    proof
      fix k assume "k \<in> fst ` set d1"
      with d1(2) have "k \<in> fst ` set d \<union> {max_index c + 1 .. max_index c'}" by blast
      then consider "k \<in> fst ` set d" | "max_index c + 1 \<le> k \<and> k \<le> max_index c'" by auto
      then show "0 \<le> k \<and> (bounded \<longrightarrow> k \<le> H)"
      proof cases
        case 1
        with Cons.prems(3) show ?thesis by blast
      next
        case 2
        with Cons.prems(2) now c1 show ?thesis by auto
      qed
    qed
    with d1(1) mono Cons.prems(2) c1 show ?thesis by auto
  next
    case (Get index)
    from dom_delete_subset [of index d] Cons.prems(3)
    have "\<forall>k \<in> fst ` set (AList.delete index d). 0 \<le> k \<and> (bounded \<longrightarrow> k \<le> H)" by blast
    with Get Cons.prems(1,2,3) show ?thesis
      by (simp add: cached_getitem_def dict_getitem_def split: option.splits)
  next
    case Reset
    with Cons.prems(1,2,3) show ?thesis by (simp add: reset_def)
  qed
  then obtain d1 where "cache ?c1 = DictCache d1" "- 1 \<le> max_index ?c1"
      "\<forall>k \<in> fst ` set d1. 0 \<le> k \<and> (bounded \<longrightarrow> k \<le> H)"
    by blast
  from Cons.IH [OF this later] show ?case by simp
qed

lemma never_prefetched_raises:
  assumes "index < 0
     \<or> (\<forall>n \<le> length ops. max_index (run_ops (take n ops) (CachedDataSource_init src True)) < index)"
  shows "fst (cached_getitem (run_ops ops (CachedDataSource_init src True)) index) = Inl KeyError"
proof -
  let ?start = "CachedDataSource_init src True :: 'a CachedDataSource"
  let ?c = "run_ops ops ?start"
  have c0: "cache ?start = DictCache []" "- 1 \<le> max_index ?start"
    by (simp_all add: CachedDataSource_init_def)
  have "index \<notin> fst ` set d'" if "cache ?c = DictCache d'" for d'
  proof (cases "index < 0")
    case True
    have "\<exists>d'. cache ?c = DictCache d' \<and> (\<forall>k \<in> fst ` set d'. 0 \<le> k \<and> (False \<longrightarrow> k \<le> 0))"
      using run_ops_dict_keys [OF c0, of False 0 ops] by simp
    with that True show ?thesis by auto
  next
    case False
    with assms have "\<forall>n \<le> length ops. max_index (run_ops (take n ops) ?start) \<le> index - 1"
      by auto
    then have "\<exists>d'. cache ?c = DictCache d'
        \<and> (\<forall>k \<in> fst ` set d'. 0 \<le> k \<and> (True \<longrightarrow> k \<le> index - 1))"
      using run_ops_dict_keys [OF c0, of True "index - 1" ops] by simp
    with that show ?thesis by auto
  qed
  moreover have "\<exists>d'. cache ?c = DictCache d'"
    using run_ops_dict_keys [OF c0, of False 0 ops] by auto
  ultimately obtain d' where "cache ?c = DictCache d'" "index \<notin> fst ` set d'" by blast
  then show ?thesis
    by (simp add: cached_getitem_def dict_getitem_def map_of_eq_None_iff [THEN iffD2])
qed

lemma source_getitem_direct:
  "cached_source (source d) = None \<Longrightarrow> snd (source_getitem d index) = d"
  by (cases "source d") (simp_all add: source_getitem_def)

lemma source_getitem_retain:
  "cached_source (source d) = Some c \<Longrightarrow> cache c = ListCache l \<Longrightarrow>
   snd (source_getitem d index) = d"
  by (cases "source d") (auto simp: source_getitem_def cached_getitem_def split: sum.splits)

lemma DataBase_getitem_unchanged:
  "snd (source_getitem d index) = d \<Longrightarrow> snd (DataBase_getitem d index) = d"
  by (cases "source_getitem d index") (auto simp: DataBase_getitem_def split: sum.splits)


lemma engine_erase_second_read:
  assumes "\<not> fully_cached d" and "cached_source (source d) = Some c"
    and "cache c = DictCache dict" and "map_of dict index = Some x"
  shows "\<exists>y. getitem_twice d index = (Inr y, Inl KeyError)"
  using assms
  by (cases "source d")
     (auto simp: getitem_twice_def DataBase_getitem_def source_getitem_def cached_getitem_def
        dict_getitem_def delete_conv')

text \<open>
  Claim C5, as the code has it. A cached source that erases after access returns a
  buffered example and removes it, so that a second \<^verbatim>\<open>get\<close> of the index raises
  \<open>KeyError\<close>; so does \<^verbatim>\<open>get\<close> of an index that is not in the buffer, and so does
  \<^verbatim>\<open>get\<close> of a never-prefetched index: after any calls of \<^verbatim>\<open>prefetch\<close>, \<^verbatim>\<open>get\<close>
  and \<^verbatim>\<open>reset\<close> on a fresh cached source, a negative index and an index above every
  \<^verbatim>\<open>max_index\<close> reached so far raise \<open>KeyError\<close>. A cached
  source in retain mode (cache strategy loaded) returns the same result for both reads
  and stays as it is. The engine returns the same result for both reads when it is fully
  cached (both come from the processed cache), when its source has random access, and
  when its cached source retains. An engine that is not fully cached and reads through a
  cached source that erases (as it does under the cache strategies none and processed)
  returns an example at the first read of a buffered index and raises \<open>KeyError\<close> at the
  second.
\<close>

theorem read_same_index_twice:
  "(cache c = DictCache dict \<and> map_of dict index = Some x \<longrightarrow>
      cached_getitem c index = (Inr x, c\<lparr>cache := DictCache (AList.delete index dict)\<rparr>)
      \<and> cached_getitem_twice c index = (Inr x, Inl KeyError))
   \<and> (cache c = DictCache dict \<and> map_of dict index = None \<longrightarrow>
      cached_getitem c index = (Inl KeyError, c))
   \<and> (index < 0
        \<or> (\<forall>n \<le> length ops.
              max_index (run_ops (take n ops) (CachedDataSource_init src True)) < index) \<longrightarrow>
      fst (cached_getitem (run_ops ops (CachedDataSource_init src True)) index) = Inl KeyError)
   \<and> (cache c = ListCache l \<longrightarrow>
      cached_getitem_twice c index = (list_getitem l index, list_getitem l index)
      \<and> snd (cached_getitem c index) = c)
   \<and> (fully_cached d \<longrightarrow>
      getitem_twice d index
        = (list_getitem (processed_cache d) index, list_getitem (processed_cache d) index))
   \<and> (cached_source (source d) = None \<longrightarrow>
      fst (getitem_twice d index) = snd (getitem_twice d index))
   \<and> (cached_source (source d) = Some c \<and> cache c = ListCache l \<longrightarrow>
      fst (getitem_twice d index) = snd (getitem_twice d index))
   \<and> (\<not> fully_cached d \<and> cached_source (source d) = Some c \<and> cache c = DictCache dict
        \<and> map_of dict index = Some x \<longrightarrow>
      (\<exists>y. getitem_twice d index = (Inr y, Inl KeyError)))"
proof -
  have erase_hit: "cached_getitem c index = (Inr x, c\<lparr>cache := DictCache (AList.delete index dict)\<rparr>)
      \<and> cached_getitem_twice c index = (Inr x, Inl KeyError)"
    if "cache c = DictCache dict" "map_of dict index = Some x"
    using that
    by (simp add: cached_getitem_twice_def cached_getitem_def dict_getitem_def delete_conv')
  have erase_miss: "cached_getitem c index = (Inl KeyError, c)"
    if "cache c = DictCache dict" "map_of dict index = None"
    using that by (simp add: cached_getitem_def dict_getitem_def)
  have never: "fst (cached_getitem (run_ops ops (CachedDataSource_init src True)) index) = Inl KeyError"
    if "index < 0
        \<or> (\<forall>n \<le> length ops.
              max_index (run_ops (take n ops) (CachedDataSource_init src True)) < index)"
    using that by (rule never_prefetched_raises)
  have retain: "cached_getitem_twice c index = (list_getitem l index, list_getitem l index)
      \<and> snd (cached_getitem c index) = c"
    if "cache c = ListCache l"
    using that by (simp add: cached_getitem_twice_def cached_getitem_def split: sum.splits)
  have full: "getitem_twice d index
        = (list_getitem (processed_cache d) index, list_getitem (processed_cache d) index)"
    if "fully_cached d"
    using that by (simp add: getitem_twice_def DataBase_getitem_def)
  have direct: "fst (getitem_twice d index) = snd (getitem_twice d index)"
    if "cached_source (source d) = None"
    using DataBase_getitem_unchanged [OF source_getitem_direct [OF that], of index]
    by (simp add: getitem_twice_def)
  have loaded: "fst (getitem_twice d index) = snd (getitem_twice d index)"
    if "cached_source (source d) = Some c" "cache c = ListCache l"
    using DataBase_getitem_unchanged [OF source_getitem_retain [OF that], of index]
    by (simp add: getitem_twice_def)
  have erasing: "\<exists>y. getitem_twice d index = (Inr y, Inl KeyError)"
    if "\<not> fully_cached d" "cached_source (source d) = Some c" "cache c = DictCache dict"
      "map_of dict index = Some x"
    using that by (rule engine_erase_second_read)
  from erase_hit erase_miss never retain full direct loaded erasing show ?thesis by blast
qed


theorem read_same_index_twice_witness:
  "cached_getitem_twice
     (run_ops [Prefetch 0] (CachedDataSource_init (IterDataSource [7, 8 :: nat]) True)) 0
     = (Inr 7, Inl KeyError)
   \<and> fst (cached_getitem
       (run_ops [Prefetch 0] (CachedDataSource_init (IterDataSource [7, 8 :: nat]) True)) 1)
     = Inl KeyError
   \<and> fst (cached_getitem
       (run_ops [Prefetch 0, Get 0, Reset, Prefetch 0]
          (CachedDataSource_init (IterDataSource [7, 8 :: nat]) True)) 1)
     = Inl KeyError
   \<and> fst (cached_getitem
       (run_ops [Prefetch 0] (CachedDataSource_init (IterDataSource [7, 8 :: nat]) True)) (- 1))
     = Inl KeyError
   \<and> cached_getitem_twice
     (run_ops [Prefetch 0] (CachedDataSource_init (IterDataSource [7, 8 :: nat]) False)) 0
     = (Inr 7, Inr 7)
   \<and> (\<exists>d. DataBase_init (SequenceDataSource [7 :: nat])
          \<lparr>hp_lazy_strategy = Lazy_NONE, hp_cache_strategy = Cache_PROCESSED,
           hp_num_parallel_calls = 1, hp_parallelize_processing = True,
           hp_max_dataset_size = - 1\<rparr> Suc = Some (Inr d)
        \<and> getitem_twice d 0 = (Inr 8, Inr 8))
   \<and> (\<exists>d. DataBase_init (SequenceDataSource [7 :: nat])
          \<lparr>hp_lazy_strategy = Lazy_ALL, hp_cache_strategy = Cache_PROCESSED,
           hp_num_parallel_calls = 1, hp_parallelize_processing = True,
           hp_max_dataset_size = - 1\<rparr> Suc = Some (Inr d)
        \<and> getitem_twice d 0 = (Inr 8, Inr 8))
   \<and> prefetch_then_getitem_twice (IterDataSource [7 :: nat])
          \<lparr>hp_lazy_strategy = Lazy_ALL, hp_cache_strategy = Cache_LOADED,
           hp_num_parallel_calls = 1, hp_parallelize_processing = True,
           hp_max_dataset_size = - 1\<rparr> Suc 0 = Some (Inr 8, Inr 8)
   \<and> (\<exists>y. prefetch_then_getitem_twice (IterDataSource [7, 9 :: nat])
          \<lparr>hp_lazy_strategy = Lazy_ALL, hp_cache_strategy = Cache_PROCESSED,
           hp_num_parallel_calls = 1, hp_parallelize_processing = True,
           hp_max_dataset_size = - 1\<rparr> Suc 1 = Some (Inr y, Inl KeyError))"
proof -
  let ?e0 = "CachedDataSource_init (IterDataSource [7, 8 :: nat]) True"
  let ?ce = "\<lparr>c_source = IterDataSource [7, 8 :: nat], c_iter = ([8], StopIteration),
              max_index = 0, cache = DictCache [(0, 7)]\<rparr>"
  let ?cr = "\<lparr>c_source = IterDataSource [7, 8 :: nat], c_iter = ([8], StopIteration),
              max_index = 0, cache = ListCache [7]\<rparr>"
  have se: "run_ops [Prefetch 0] ?e0 = ?ce"
    by (simp add: prefetch.simps CachedDataSource_init_def cache_store_def)
  have sr: "run_ops [Prefetch 0] (CachedDataSource_init (IterDataSource [7, 8 :: nat]) False) = ?cr"
    by (simp add: prefetch.simps CachedDataSource_init_def cache_store_def)
  have hit: "cache ?ce = DictCache [(0, 7)] \<and> map_of [(0 :: int, 7 :: nat)] 0 = Some 7" by simp
  have miss: "cache ?ce = DictCache [(0, 7)] \<and> map_of [(0 :: int, 7 :: nat)] 1 = None" by simp
  have retain: "cache ?cr = ListCache [7]" by simp
  have never: "(1 :: int) < 0
      \<or> (\<forall>n \<le> length [Prefetch 0, Get 0, Reset, Prefetch 0].
            max_index (run_ops (take n [Prefetch 0, Get 0, Reset, Prefetch 0]) ?e0) < 1)"
  proof (intro disjI2 allI impI)
    fix n assume "n \<le> length [Prefetch 0, Get 0, Reset, Prefetch 0]"
    then have "n = 0 \<or> n = 1 \<or> n = 2 \<or> n = 3 \<or> n = 4" by auto
    then show "max_index (run_ops (take n [Prefetch 0, Get 0, Reset, Prefetch 0]) ?e0) < 1"
      by (auto simp: prefetch.simps CachedDataSource_init_def cache_store_def reset_def
          erase_after_access_def cached_getitem_def dict_getitem_def numeral_2_eq_2
          numeral_3_eq_3 eval_nat_numeral)
  qed
  have negative: "(- 1 :: int) < 0
      \<or> (\<forall>n \<le> length [Prefetch 0]. max_index (run_ops (take n [Prefetch 0]) ?e0) < - 1)"
    by simp
  from read_same_index_twice [of ?ce "[(0, 7)]" 0 7, THEN conjunct1, THEN mp, OF hit] se
  have w1: "cached_getitem_twice (run_ops [Prefetch 0] ?e0) 0 = (Inr 7, Inl KeyError)" by simp
  from read_same_index_twice [of ?ce "[(0, 7)]" 1, THEN conjunct2, THEN conjunct1, THEN mp, OF miss] se
  have w2: "fst (cached_getitem (run_ops [Prefetch 0] ?e0) 1) = Inl KeyError" by simp
  have w3: "fst (cached_getitem (run_ops [Prefetch 0, Get 0, Reset, Prefetch 0] ?e0) 1) = Inl KeyError"
    by (rule read_same_index_twice [of _ _ 1 _ "[Prefetch 0, Get 0, Reset, Prefetch 0]"
          "IterDataSource [7, 8 :: nat]",
          THEN conjunct2, THEN conjunct2, THEN conjunct1, THEN mp, OF never])
  have w3': "fst (cached_getitem (run_ops [Prefetch 0] ?e0) (- 1)) = Inl KeyError"
    by (rule read_same_index_twice [of _ _ "- 1" _ "[Prefetch 0]" "IterDataSource [7, 8 :: nat]",
          THEN conjunct2, THEN conjunct2, THEN conjunct1, THEN mp, OF negative])
  from read_same_index_twice [of ?cr _ 0 _ _ _ "[7]",
          THEN conjunct2, THEN conjunct2, THEN conjunct2, THEN conjunct1, THEN mp, OF retain] sr
  have w4: "cached_getitem_twice
      (run_ops [Prefetch 0] (CachedDataSource_init (IterDataSource [7, 8 :: nat]) False)) 0
      = (Inr 7, Inr 7)"
    by (simp add: list_getitem_def)
  obtain d1 where d1: "DataBase_init (SequenceDataSource [7 :: nat])
          \<lparr>hp_lazy_strategy = Lazy_NONE, hp_cache_strategy = Cache_PROCESSED,
           hp_num_parallel_calls = 1, hp_parallelize_processing = True,
           hp_max_dataset_size = - 1\<rparr> Suc = Some (Inr d1)"
      and full: "fully_cached d1" and pc: "processed_cache d1 = [8]"
    by (simp add: DataBase_init_def probe_random_access_def resolve_strategies_def
        engine_source_iter_def)
  from read_same_index_twice [of _ _ 0 _ _ _ _ d1,
          THEN conjunct2, THEN conjunct2, THEN conjunct2, THEN conjunct2, THEN conjunct1,
          THEN mp, OF full] pc
  have w5: "getitem_twice d1 0 = (Inr 8, Inr 8)" by (simp add: list_getitem_def)
  obtain d2 where d2: "DataBase_init (SequenceDataSource [7 :: nat])
          \<lparr>hp_lazy_strategy = Lazy_ALL, hp_cache_strategy = Cache_PROCESSED,
           hp_num_parallel_calls = 1, hp_parallelize_processing = True,
           hp_max_dataset_size = - 1\<rparr> Suc = Some (Inr d2)"
      and direct: "cached_source (source d2) = None"
      and f2: "source d2 = Direct (SequenceDataSource [7])" "\<not> fully_cached d2"
        "parallelize_processing d2" "process d2 = Suc"
    by (simp add: DataBase_init_def probe_random_access_def resolve_strategies_def
        py_len_def list_getitem_def)
  from f2 have first2: "fst (getitem_twice d2 0) = Inr 8"
    by (simp add: getitem_twice_def DataBase_getitem_def source_getitem_def list_getitem_def)
  from read_same_index_twice [of _ _ 0 _ _ _ _ d2,
          THEN conjunct2, THEN conjunct2, THEN conjunct2, THEN conjunct2, THEN conjunct2,
          THEN conjunct1, THEN mp, OF direct] first2
  have w6: "getitem_twice d2 0 = (Inr 8, Inr 8)" by (simp add: prod_eq_iff)
  let ?hl = "\<lparr>hp_lazy_strategy = Lazy_ALL, hp_cache_strategy = Cache_LOADED,
           hp_num_parallel_calls = 1, hp_parallelize_processing = True,
           hp_max_dataset_size = - 1\<rparr>"
  let ?cl = "\<lparr>c_source = IterDataSource [7 :: nat], c_iter = ([], StopIteration),
              max_index = 0, cache = ListCache [7]\<rparr>"
  obtain d3 where d3: "DataBase_init (IterDataSource [7 :: nat]) ?hl Suc = Some (Inr d3)"
      and f3: "source d3 = Cached (CachedDataSource_init (IterDataSource [7]) False)"
        "\<not> fully_cached d3" "parallelize_processing d3" "process d3 = Suc"
        "\<not> supports_random_access d3" "\<not> flag_call_prefetch_processed d3"
    by (simp add: DataBase_init_def probe_random_access_def resolve_strategies_def py_len_def)
  have pl: "prefetch 0 (CachedDataSource_init (IterDataSource [7 :: nat]) False) = (Inr (), ?cl)"
    by (simp add: prefetch.simps CachedDataSource_init_def cache_store_def)
  from f3 pl have p3: "prefetch_source d3 0 = (Inr None, d3\<lparr>source := Cached ?cl\<rparr>)"
    by (simp add: prefetch_source_def)
  from f3 have first3: "fst (getitem_twice (d3\<lparr>source := Cached ?cl\<rparr>) 0) = Inr 8"
    by (simp add: getitem_twice_def DataBase_getitem_def source_getitem_def cached_getitem_def
        list_getitem_def)
  have loaded: "cached_source (source (d3\<lparr>source := Cached ?cl\<rparr>)) = Some ?cl
      \<and> cache ?cl = ListCache [7]"
    by simp
  from read_same_index_twice [of ?cl _ 0 _ _ _ "[7]" "d3\<lparr>source := Cached ?cl\<rparr>",
          THEN conjunct2, THEN conjunct2, THEN conjunct2, THEN conjunct2, THEN conjunct2,
          THEN conjunct2, THEN conjunct1, THEN mp, OF loaded] first3
  have "getitem_twice (d3\<lparr>source := Cached ?cl\<rparr>) 0 = (Inr 8, Inr 8)"
    by (simp add: prod_eq_iff)
  with d3 p3 have w7: "prefetch_then_getitem_twice (IterDataSource [7 :: nat]) ?hl Suc 0
      = Some (Inr 8, Inr 8)"
    by (simp add: prefetch_then_getitem_twice_def)
  let ?hp = "\<lparr>hp_lazy_strategy = Lazy_ALL, hp_cache_strategy = Cache_PROCESSED,
           hp_num_parallel_calls = 1, hp_parallelize_processing = True,
           hp_max_dataset_size = - 1\<rparr>"
  let ?cp = "\<lparr>c_source = IterDataSource [7, 9 :: nat], c_iter = ([], StopIteration),
              max_index = 1, cache = DictCache [(0, 7), (1, 9)]\<rparr>"
  obtain d4 where d4: "DataBase_init (IterDataSource [7, 9 :: nat]) ?hp Suc = Some (Inr d4)"
      and f4: "source d4 = Cached (CachedDataSource_init (IterDataSource [7, 9]) True)"
        "\<not> fully_cached d4" "\<not> supports_random_access d4" "\<not> flag_call_prefetch_processed d4"
    by (simp add: DataBase_init_def probe_random_access_def resolve_strategies_def py_len_def)
  have pp: "prefetch 1 (CachedDataSource_init (IterDataSource [7, 9 :: nat]) True) = (Inr (), ?cp)"
    by (simp add: prefetch.simps CachedDataSource_init_def cache_store_def)
  from f4 pp have p4: "prefetch_source d4 1 = (Inr None, d4\<lparr>source := Cached ?cp\<rparr>)"
    by (simp add: prefetch_source_def)
  from f4 have erasing: "\<not> fully_cached (d4\<lparr>source := Cached ?cp\<rparr>)
      \<and> cached_source (source (d4\<lparr>source := Cached ?cp\<rparr>)) = Some ?cp
      \<and> cache ?cp = DictCache [(0, 7), (1, 9)] \<and> map_of [(0 :: int, 7 :: nat), (1, 9)] 1 = Some 9"
    by simp
  from read_same_index_twice [of ?cp "[(0, 7), (1, 9)]" 1 9 _ _ _ "d4\<lparr>source := Cached ?cp\<rparr>",
          THEN conjunct2, THEN conjunct2, THEN conjunct2, THEN conjunct2, THEN conjunct2,
          THEN conjunct2, THEN conjunct2, THEN mp, OF erasing]
  obtain y where "getitem_twice (d4\<lparr>source := Cached ?cp\<rparr>) 1 = (Inr y, Inl KeyError)" ..
  with d4 p4 have "prefetch_then_getitem_twice (IterDataSource [7, 9 :: nat]) ?hp Suc 1
      = Some (Inr y, Inl KeyError)"
    by (simp add: prefetch_then_getitem_twice_def)
  then have w8: "\<exists>y. prefetch_then_getitem_twice (IterDataSource [7, 9 :: nat]) ?hp Suc 1
      = Some (Inr y, Inl KeyError)" ..
  from d1 w5 have e5: "\<exists>d. DataBase_init (SequenceDataSource [7 :: nat])
          \<lparr>hp_lazy_strategy = Lazy_NONE, hp_cache_strategy = Cache_PROCESSED,
           hp_num_parallel_calls = 1, hp_parallelize_processing = True,
           hp_max_dataset_size = - 1\<rparr> Suc = Some (Inr d)
        \<and> getitem_twice d 0 = (Inr 8, Inr 8)"
    by (intro exI conjI)
  from d2 w6 have e6: "\<exists>d. DataBase_init (SequenceDataSource [7 :: nat])
          \<lparr>hp_lazy_strategy = Lazy_ALL, hp_cache_strategy = Cache_PROCESSED,
           hp_num_parallel_calls = 1, hp_parallelize_processing = True,
           hp_max_dataset_size = - 1\<rparr> Suc = Some (Inr d)
        \<and> getitem_twice d 0 = (Inr 8, Inr 8)"
    by (intro exI conjI)
  from w1 w2 w3 w3' w4 e5 e6 w7 w8 show ?thesis by (intro conjI)
qed

text \<open>
  The claim as stated promises equal results under the cache strategy processed. With
  laziness all, cache processed and a sequential source, the cached source erases after
  access and the engine is not yet fully cached: after prefetching index 0 the first read
  returns the processed example and the second raises \<open>KeyError\<close>.
\<close>

theorem second_read_fails_before_fully_cached:
  "prefetch_then_getitem_twice (IterDataSource [7 :: nat])
     \<lparr>hp_lazy_strategy = Lazy_ALL, hp_cache_strategy = Cache_PROCESSED, hp_num_parallel_calls = 1,
      hp_parallelize_processing = True, hp_max_dataset_size = - 1\<rparr> Suc 0
   = Some (Inr 8, Inl KeyError)"
  by code_simp



section \<open>Adding processed examples out of order\<close>

lemma add_examples_result:
  "reorder_cache d = Some r \<Longrightarrow>
   \<exists>d' r' ys. add_examples ps d = (Inr (), d') \<and> reorder_cache d' = Some r'
      \<and> processed_cache d' = processed_cache d @ ys
      \<and> dataset_size d' = dataset_size d \<and> fully_cached d' = fully_cached d"
proof (induction ps arbitrary: d r)
  case Nil
  then show ?case by simp
next
  case (Cons p ps)
  obtain index example where p: "p = (index, example)" by (cases p)
  show ?case
  proof (cases "index = int (length (processed_cache d))")
    case True
    let ?d1 = "d\<lparr>processed_cache := processed_cache d @ [example]\<rparr>"
    from Cons.prems have "reorder_cache ?d1 = Some r" by simp
    from Cons.IH [OF this] obtain d' r' ys where
      "add_examples ps ?d1 = (Inr (), d')" "reorder_cache d' = Some r'"
      "processed_cache d' = processed_cache ?d1 @ ys"
      "dataset_size d' = dataset_size ?d1" "fully_cached d' = fully_cached ?d1"
      by blast
    with True p show ?thesis by simp
  next
    case False
    let ?d1 = "d\<lparr>reorder_cache := Some (AList.update index example r)\<rparr>"
    have "reorder_cache ?d1 = Some (AList.update index example r)" by simp
    from Cons.IH [OF this] obtain d' r' ys where
      "add_examples ps ?d1 = (Inr (), d')" "reorder_cache d' = Some r'"
      "processed_cache d' = processed_cache ?d1 @ ys"
      "dataset_size d' = dataset_size ?d1" "fully_cached d' = fully_cached ?d1"
      by blast
    with False p Cons.prems show ?thesis by simp
  qed
qed

lemma delete_source_examples_fields:
  "delete_source_examples indices d = (res, d1) \<Longrightarrow>
   processed_cache d1 = processed_cache d \<and> reorder_cache d1 = reorder_cache d
   \<and> dataset_size d1 = dataset_size d \<and> fully_cached d1 = fully_cached d"
proof (induction indices arbitrary: d)
  case Nil
  then show ?case by simp
next
  case (Cons index indices)
  show ?case
  proof (cases "cached_source (source d)")
    case None
    with Cons.prems show ?thesis by simp
  next
    case (Some c)
    show ?thesis
    proof (cases "cache_delitem (cache c) index")
      case (Inl e)
      with Some Cons.prems show ?thesis by simp
    next
      case (Inr ch)
      with Some Cons.prems
      have "delete_source_examples indices
          (d\<lparr>source := set_cached_source (source d) (c\<lparr>cache := ch\<rparr>)\<rparr>) = (res, d1)"
        by simp
      from Cons.IH [OF this] show ?thesis by simp
    qed
  qed
qed


lemma drain_reorder_cache_exact:
  "\<exists>ys. drain_reorder_cache pc r
       = (pc @ ys,
          filter (\<lambda>p. \<not> (int (length pc) \<le> fst p \<and> fst p < int (length pc + length ys))) r)
     \<and> (\<forall>j < length ys. map_of r (int (length pc + j)) = Some (ys ! j))
     \<and> map_of r (int (length pc + length ys)) = None"
proof (induction pc r rule: drain_reorder_cache.induct)
  case (1 pc r)
  show ?case
  proof (cases "map_of r (int (length pc))")
    case None
    then have "drain_reorder_cache pc r = (pc, r)"
      by (simp add: drain_reorder_cache.simps [of pc r])
    with None show ?thesis by (intro exI [of _ "[]"]) simp
  next
    case (Some example)
    let ?r1 = "AList.delete (int (length pc)) r"
    from "1.IH" [OF Some] obtain ys where
      dr: "drain_reorder_cache (pc @ [example]) ?r1
          = ((pc @ [example]) @ ys,
             filter (\<lambda>p. \<not> (int (length (pc @ [example])) \<le> fst p
                \<and> fst p < int (length (pc @ [example]) + length ys))) ?r1)"
      and vals: "\<forall>j < length ys. map_of ?r1 (int (length (pc @ [example]) + j)) = Some (ys ! j)"
      and stop: "map_of ?r1 (int (length (pc @ [example]) + length ys)) = None"
      by blast
    have flt: "filter (\<lambda>p. \<not> (int (length (pc @ [example])) \<le> fst p
                \<and> fst p < int (length (pc @ [example]) + length ys))) ?r1
        = filter (\<lambda>p. \<not> (int (length pc) \<le> fst p
                \<and> fst p < int (length pc + length (example # ys)))) r"
      by (auto simp: AList.delete_eq intro!: filter_cong)
    have v: "\<forall>j < length (example # ys). map_of r (int (length pc + j)) = Some ((example # ys) ! j)"
    proof (intro allI impI)
      fix j assume j: "j < length (example # ys)"
      show "map_of r (int (length pc + j)) = Some ((example # ys) ! j)"
      proof (cases j)
        case 0
        with Some show ?thesis by simp
      next
        case (Suc j')
        with j vals have "map_of ?r1 (int (length (pc @ [example]) + j')) = Some (ys ! j')" by simp
        with Suc show ?thesis by (simp add: delete_conv' split: if_splits)
      qed
    qed
    from stop have s: "map_of r (int (length pc + length (example # ys))) = None"
      by (simp add: delete_conv' split: if_splits)
    from Some dr flt have "drain_reorder_cache pc r
       = (pc @ (example # ys),
          filter (\<lambda>p. \<not> (int (length pc) \<le> fst p \<and> fst p < int (length pc + length (example # ys)))) r)"
      by (simp add: drain_reorder_cache.simps [of pc r])
    with v s show ?thesis by blast
  qed
qed


lemma map_of_snoc_fresh:
  assumes "i \<notin> fst ` set ps"
  shows "map_of (ps @ [(i, e)]) k = (if k = i then Some e else map_of ps k)"
proof -
  from assms have "map_of ps i = None" by (simp add: map_of_eq_None_iff)
  then show ?thesis by (cases "map_of ps k") (auto simp: map_add_def)
qed

lemma add_examples_content:
  assumes "reorder_cache d = Some r" and "distinct (map fst (ps @ qs))"
    and "\<forall>j < length (processed_cache d). map_of ps (int j) = Some (processed_cache d ! j)"
    and "\<forall>k. map_of r k
           = (if 0 \<le> k \<and> k < int (length (processed_cache d)) then None else map_of ps k)"
  shows "\<exists>pc' r'. add_examples qs d
           = (Inr (), d\<lparr>processed_cache := pc', reorder_cache := Some r'\<rparr>)
     \<and> (\<forall>j < length pc'. map_of (ps @ qs) (int j) = Some (pc' ! j))
     \<and> (\<forall>k. map_of r' k = (if 0 \<le> k \<and> k < int (length pc') then None else map_of (ps @ qs) k))"
  using assms
proof (induction qs arbitrary: d r ps)
  case Nil
  then have "add_examples [] d
      = (Inr (), d\<lparr>processed_cache := processed_cache d, reorder_cache := Some r\<rparr>)"
    by simp
  with Nil.prems(3,4) show ?case by (intro exI [of _ "processed_cache d"] exI [of _ r]) simp
next
  case (Cons q qs)
  obtain i e where q: "q = (i, e)" by (cases q)
  from Cons.prems(2) q have fresh: "i \<notin> fst ` set ps"
    and dist: "distinct (map fst ((ps @ [(i, e)]) @ qs))"
    by auto
  note snoc = map_of_snoc_fresh [OF fresh]
  from fresh have none: "map_of ps i = None" by (simp add: map_of_eq_None_iff)
  let ?m = "length (processed_cache d)"
  show ?case
  proof (cases "i = int ?m")
    case True
    let ?d1 = "d\<lparr>processed_cache := processed_cache d @ [e]\<rparr>"
    have r1: "reorder_cache ?d1 = Some r" using Cons.prems(1) by simp
    have c1: "\<forall>j < length (processed_cache ?d1).
        map_of (ps @ [(i, e)]) (int j) = Some (processed_cache ?d1 ! j)"
    proof (intro allI impI)
      fix j assume "j < length (processed_cache ?d1)"
      then consider "j < ?m" | "j = ?m" by (auto simp: less_Suc_eq)
      then show "map_of (ps @ [(i, e)]) (int j) = Some (processed_cache ?d1 ! j)"
      proof cases
        case 1
        with True have "int j \<noteq> i" by simp
        with 1 Cons.prems(3) show ?thesis
          by (simp add: snoc nth_append del: map_of_append)
      next
        case 2
        with True have "int j = i" by simp
        with 2 show ?thesis by (simp add: snoc del: map_of_append)
      qed
    qed
    have b1: "\<forall>k. map_of r k
        = (if 0 \<le> k \<and> k < int (length (processed_cache ?d1)) then None
           else map_of (ps @ [(i, e)]) k)"
    proof
      fix k
      show "map_of r k
        = (if 0 \<le> k \<and> k < int (length (processed_cache ?d1)) then None
           else map_of (ps @ [(i, e)]) k)"
      proof (cases "k = i")
        case eq: True
        from Cons.prems(4) True none have "map_of r i = None" by simp
        with eq True show ?thesis by simp
      next
        case False
        with True have "(0 \<le> k \<and> k < int (length (processed_cache ?d1)))
            = (0 \<le> k \<and> k < int ?m)"
          by auto
        with False Cons.prems(4) show ?thesis by (simp add: snoc del: map_of_append)
      qed
    qed
    from Cons.IH [OF r1 dist c1 b1] obtain pc' r' where
      "add_examples qs ?d1 = (Inr (), ?d1\<lparr>processed_cache := pc', reorder_cache := Some r'\<rparr>)"
      "\<forall>j < length pc'. map_of ((ps @ [(i, e)]) @ qs) (int j) = Some (pc' ! j)"
      "\<forall>k. map_of r' k = (if 0 \<le> k \<and> k < int (length pc') then None
           else map_of ((ps @ [(i, e)]) @ qs) k)"
      by blast
    with True q show ?thesis by (intro exI [of _ pc'] exI [of _ r']) simp
  next
    case False
    let ?d1 = "d\<lparr>reorder_cache := Some (AList.update i e r)\<rparr>"
    have r1: "reorder_cache ?d1 = Some (AList.update i e r)" by simp
    have outside: "\<not> (0 \<le> i \<and> i < int ?m)"
    proof
      assume "0 \<le> i \<and> i < int ?m"
      then have "nat i < ?m" and "int (nat i) = i" by (simp_all add: nat_less_iff)
      with Cons.prems(3) have "map_of ps i \<noteq> None" by (metis option.distinct(1))
      with none show False by simp
    qed
    have c1: "\<forall>j < length (processed_cache ?d1).
        map_of (ps @ [(i, e)]) (int j) = Some (processed_cache ?d1 ! j)"
      using Cons.prems(3) outside by (auto simp: snoc simp del: map_of_append)
    have b1: "\<forall>k. map_of (AList.update i e r) k
        = (if 0 \<le> k \<and> k < int (length (processed_cache ?d1)) then None
           else map_of (ps @ [(i, e)]) k)"
      using Cons.prems(4) outside by (auto simp: snoc update_conv' simp del: map_of_append)
    from Cons.IH [OF r1 dist c1 b1] obtain pc' r' where
      "add_examples qs ?d1 = (Inr (), ?d1\<lparr>processed_cache := pc', reorder_cache := Some r'\<rparr>)"
      "\<forall>j < length pc'. map_of ((ps @ [(i, e)]) @ qs) (int j) = Some (pc' ! j)"
      "\<forall>k. map_of r' k = (if 0 \<le> k \<and> k < int (length pc') then None
           else map_of ((ps @ [(i, e)]) @ qs) k)"
      by blast
    with False q Cons.prems(1) show ?thesis by (intro exI [of _ pc'] exI [of _ r']) simp
  qed
qed

lemma drain_reorder_cache_content:
  assumes "drain_reorder_cache pc r = (pc', r')"
    and "\<forall>j < length pc. map_of ps (int j) = Some (pc ! j)"
    and "\<forall>k. map_of r k = (if 0 \<le> k \<and> k < int (length pc) then None else map_of ps k)"
  shows "(\<forall>j < length pc'. map_of ps (int j) = Some (pc' ! j))
     \<and> (\<forall>k. map_of r' k = (if 0 \<le> k \<and> k < int (length pc') then None else map_of ps k))
     \<and> map_of ps (int (length pc')) = None"
  using assms
proof (induction pc r arbitrary: pc' r' rule: drain_reorder_cache.induct)
  case (1 pc r)
  show ?case
  proof (cases "map_of r (int (length pc))")
    case None
    with "1.prems"(1) have "pc' = pc" "r' = r"
      by (simp_all add: drain_reorder_cache.simps [of pc r])
    moreover from None "1.prems"(3) have "map_of ps (int (length pc)) = None"
      by (metis less_irrefl)
    ultimately show ?thesis using "1.prems"(2,3) by simp
  next
    case (Some example)
    let ?r1 = "AList.delete (int (length pc)) r"
    from Some "1.prems"(1) have step: "drain_reorder_cache (pc @ [example]) ?r1 = (pc', r')"
      by (simp add: drain_reorder_cache.simps [of pc r])
    from Some "1.prems"(3) have here: "map_of ps (int (length pc)) = Some example"
      by (metis less_irrefl)
    have c1: "\<forall>j < length (pc @ [example]). map_of ps (int j) = Some ((pc @ [example]) ! j)"
      using "1.prems"(2) here by (auto simp: nth_append less_Suc_eq)
    have b1: "\<forall>k. map_of ?r1 k
        = (if 0 \<le> k \<and> k < int (length (pc @ [example])) then None else map_of ps k)"
      using "1.prems"(3) by (auto simp: delete_conv')
    from "1.IH" [OF Some step c1 b1] show ?thesis .
  qed
qed

lemma add_cached_examples_stages:
  assumes "(if flag_delete_source_in_add_cache d
        then delete_source_examples indices d else (Inr (), d)) = (Inr (), d1)"
    and "add_examples (zip indices examples) d1 = (Inr (), d2)"
    and "reorder_cache d2 = Some r2"
    and "drain_reorder_cache (processed_cache d2) r2 = (pc, r')"
  shows "add_cached_examples d indices examples
       = (Inr (),
          d2\<lparr>processed_cache := pc, reorder_cache := Some r',
             fully_cached :=
               (if Some (int (length pc)) = dataset_size d2 then True else fully_cached d2)\<rparr>)"
  using assms by (simp add: add_cached_examples_def)

lemma add_cached_examples_exact:
  assumes "reorder_cache d = Some r"
    and "flag_delete_source_in_add_cache d \<longrightarrow> fst (delete_source_examples indices d) = Inr ()"
  shows "\<exists>d2 r2 ys.
       add_examples (zip indices examples)
         (if flag_delete_source_in_add_cache d
          then snd (delete_source_examples indices d) else d) = (Inr (), d2)
     \<and> reorder_cache d2 = Some r2
     \<and> add_cached_examples d indices examples
         = (Inr (),
            d2\<lparr>processed_cache := processed_cache d2 @ ys,
               reorder_cache := Some (filter
                 (\<lambda>p. \<not> (int (length (processed_cache d2)) \<le> fst p
                        \<and> fst p < int (length (processed_cache d2) + length ys))) r2),
               fully_cached :=
                 (if Some (int (length (processed_cache d2 @ ys))) = dataset_size d2
                  then True else fully_cached d2)\<rparr>)
     \<and> (\<exists>zs. processed_cache d2 = processed_cache d @ zs)
     \<and> dataset_size d2 = dataset_size d \<and> fully_cached d2 = fully_cached d
     \<and> (\<forall>j < length ys. map_of r2 (int (length (processed_cache d2) + j)) = Some (ys ! j))
     \<and> map_of r2 (int (length (processed_cache d2) + length ys)) = None"
proof -
  let ?d1 = "if flag_delete_source_in_add_cache d
          then snd (delete_source_examples indices d) else d"
  define res where "res = (if flag_delete_source_in_add_cache d
        then fst (delete_source_examples indices d) else Inr ())"
  have d1: "(if flag_delete_source_in_add_cache d
        then delete_source_examples indices d else (Inr (), d)) = (res, ?d1)"
    by (simp add: res_def)
  from assms(2) have res: "res = Inr ()" by (simp add: res_def)
  have same: "processed_cache ?d1 = processed_cache d \<and> reorder_cache ?d1 = reorder_cache d
      \<and> dataset_size ?d1 = dataset_size d \<and> fully_cached ?d1 = fully_cached d"
    using delete_source_examples_fields [of indices d "fst (delete_source_examples indices d)"
        "snd (delete_source_examples indices d)"]
    by simp
  with assms(1) have "reorder_cache ?d1 = Some r" by simp
  from add_examples_result [OF this, of "zip indices examples"]
  obtain d2 r2 zs where d2: "add_examples (zip indices examples) ?d1 = (Inr (), d2)"
      "reorder_cache d2 = Some r2" "processed_cache d2 = processed_cache ?d1 @ zs"
      "dataset_size d2 = dataset_size ?d1" "fully_cached d2 = fully_cached ?d1"
    by blast
  from drain_reorder_cache_exact [of "processed_cache d2" r2] obtain ys where
    dr: "drain_reorder_cache (processed_cache d2) r2
       = (processed_cache d2 @ ys,
          filter (\<lambda>p. \<not> (int (length (processed_cache d2)) \<le> fst p
                 \<and> fst p < int (length (processed_cache d2) + length ys))) r2)"
    and vals: "\<forall>j < length ys. map_of r2 (int (length (processed_cache d2) + j)) = Some (ys ! j)"
    and stop: "map_of r2 (int (length (processed_cache d2) + length ys)) = None"
    by blast
  from d1 res have st: "(if flag_delete_source_in_add_cache d
        then delete_source_examples indices d else (Inr (), d)) = (Inr (), ?d1)"
    by simp
  note eq = add_cached_examples_stages [OF st d2(1,2) dr]
  from d2(3,4,5) same
  have "(\<exists>zs. processed_cache d2 = processed_cache d @ zs)
      \<and> dataset_size d2 = dataset_size d \<and> fully_cached d2 = fully_cached d"
    by simp
  with eq d2(1,2) vals stop show ?thesis by blast
qed

lemma add_cached_examples_content:
  assumes "add_cached_examples d indices examples = (Inr (), d')"
    and "reorder_cache d = Some r" and "distinct (map fst (ps @ zip indices examples))"
    and "\<forall>j < length (processed_cache d). map_of ps (int j) = Some (processed_cache d ! j)"
    and "\<forall>k. map_of r k
           = (if 0 \<le> k \<and> k < int (length (processed_cache d)) then None else map_of ps k)"
  shows "\<exists>r'. reorder_cache d' = Some r'
     \<and> (\<forall>j < length (processed_cache d').
           map_of (ps @ zip indices examples) (int j) = Some (processed_cache d' ! j))
     \<and> (\<forall>k. map_of r' k
           = (if 0 \<le> k \<and> k < int (length (processed_cache d')) then None
              else map_of (ps @ zip indices examples) k))
     \<and> map_of (ps @ zip indices examples) (int (length (processed_cache d'))) = None
     \<and> dataset_size d' = dataset_size d
     \<and> (fully_cached d' \<longleftrightarrow>
           Some (int (length (processed_cache d'))) = dataset_size d \<or> fully_cached d)"
proof -
  obtain res d1 where d1: "(if flag_delete_source_in_add_cache d
        then delete_source_examples indices d else (Inr (), d)) = (res, d1)"
    by (cases "if flag_delete_source_in_add_cache d
        then delete_source_examples indices d else (Inr (), d)")
  with assms(1) have res: "res = Inr ()"
    by (cases res) (simp_all add: add_cached_examples_def)
  from d1 have same: "processed_cache d1 = processed_cache d \<and> reorder_cache d1 = reorder_cache d
      \<and> dataset_size d1 = dataset_size d \<and> fully_cached d1 = fully_cached d"
    by (auto split: if_splits dest: delete_source_examples_fields)
  from same assms(2) have r1: "reorder_cache d1 = Some r" by simp
  from same assms(4) have c1: "\<forall>j < length (processed_cache d1).
      map_of ps (int j) = Some (processed_cache d1 ! j)"
    by simp
  from same assms(5) have b1: "\<forall>k. map_of r k
      = (if 0 \<le> k \<and> k < int (length (processed_cache d1)) then None else map_of ps k)"
    by simp
  from add_examples_content [OF r1 assms(3) c1 b1] obtain pc2 r2 where
    d2: "add_examples (zip indices examples) d1
           = (Inr (), d1\<lparr>processed_cache := pc2, reorder_cache := Some r2\<rparr>)"
    and c2: "\<forall>j < length pc2. map_of (ps @ zip indices examples) (int j) = Some (pc2 ! j)"
    and b2: "\<forall>k. map_of r2 k = (if 0 \<le> k \<and> k < int (length pc2) then None
           else map_of (ps @ zip indices examples) k)"
    by blast
  obtain pc3 r3 where dr: "drain_reorder_cache pc2 r2 = (pc3, r3)"
    by (cases "drain_reorder_cache pc2 r2")
  note content = drain_reorder_cache_content [OF dr c2 b2]
  from d1 res have st: "(if flag_delete_source_in_add_cache d
        then delete_source_examples indices d else (Inr (), d)) = (Inr (), d1)"
    by simp
  have dr': "drain_reorder_cache
      (processed_cache (d1\<lparr>processed_cache := pc2, reorder_cache := Some r2\<rparr>)) r2 = (pc3, r3)"
    using dr by simp
  have "reorder_cache (d1\<lparr>processed_cache := pc2, reorder_cache := Some r2\<rparr>) = Some r2" by simp
  from add_cached_examples_stages [OF st d2 this dr'] assms(1)
  have d': "processed_cache d' = pc3" "reorder_cache d' = Some r3"
      "dataset_size d' = dataset_size d1"
      "fully_cached d' = (if Some (int (length pc3)) = dataset_size d1 then True else fully_cached d1)"
    by auto
  with content same show ?thesis by simp
qed

lemma batch_pairs_Cons: "batch_pairs (b # bs) = zip (fst b) (snd b) @ batch_pairs bs"
  by (simp add: batch_pairs_def)

lemma add_batches_content:
  assumes "add_batches bs d = (Inr (), d')"
    and "reorder_cache d = Some r" and "distinct (map fst (ps @ batch_pairs bs))"
    and "\<forall>j < length (processed_cache d). map_of ps (int j) = Some (processed_cache d ! j)"
    and "\<forall>k. map_of r k
           = (if 0 \<le> k \<and> k < int (length (processed_cache d)) then None else map_of ps k)"
    and "map_of ps (int (length (processed_cache d))) = None"
  shows "\<exists>r'. reorder_cache d' = Some r'
     \<and> (\<forall>j < length (processed_cache d').
           map_of (ps @ batch_pairs bs) (int j) = Some (processed_cache d' ! j))
     \<and> (\<forall>k. map_of r' k
           = (if 0 \<le> k \<and> k < int (length (processed_cache d')) then None
              else map_of (ps @ batch_pairs bs) k))
     \<and> map_of (ps @ batch_pairs bs) (int (length (processed_cache d'))) = None
     \<and> dataset_size d' = dataset_size d
     \<and> (dataset_size d = Some (int n) \<and> fst ` set (ps @ batch_pairs bs) \<subseteq> {0..<int n} \<longrightarrow>
          (fully_cached d' \<longleftrightarrow>
             fully_cached d \<or> bs \<noteq> [] \<and> {0..<int n} \<subseteq> fst ` set (ps @ batch_pairs bs)))"
  using assms
proof (induction bs arbitrary: d r ps)
  case Nil
  then show ?case by (simp add: batch_pairs_def)
next
  case (Cons b bs)
  let ?qs = "zip (fst b) (snd b)"
  obtain res d1 where b1: "add_cached_examples d (fst b) (snd b) = (res, d1)"
    by (cases "add_cached_examples d (fst b) (snd b)")
  with Cons.prems(1) have res: "res = Inr ()" and rest: "add_batches bs d1 = (Inr (), d')"
    by (cases res; simp)+
  from Cons.prems(3) have dist1: "distinct (map fst (ps @ ?qs))"
    and dist2: "distinct (map fst ((ps @ ?qs) @ batch_pairs bs))"
    by (auto simp: batch_pairs_Cons)
  from add_cached_examples_content [OF b1 [unfolded res] Cons.prems(2) dist1 Cons.prems(4,5)]
  obtain r1 where r1: "reorder_cache d1 = Some r1"
    and c1: "\<forall>j < length (processed_cache d1). map_of (ps @ ?qs) (int j) = Some (processed_cache d1 ! j)"
    and k1: "\<forall>k. map_of r1 k
           = (if 0 \<le> k \<and> k < int (length (processed_cache d1)) then None else map_of (ps @ ?qs) k)"
    and s1: "map_of (ps @ ?qs) (int (length (processed_cache d1))) = None"
    and n1: "dataset_size d1 = dataset_size d"
    and f1: "fully_cached d1 \<longleftrightarrow>
           Some (int (length (processed_cache d1))) = dataset_size d \<or> fully_cached d"
    by blast
  from Cons.IH [OF rest r1 dist2 c1 k1 s1] obtain r' where
    r': "reorder_cache d' = Some r'"
    and c': "\<forall>j < length (processed_cache d').
           map_of ((ps @ ?qs) @ batch_pairs bs) (int j) = Some (processed_cache d' ! j)"
    and k': "\<forall>k. map_of r' k
           = (if 0 \<le> k \<and> k < int (length (processed_cache d')) then None
              else map_of ((ps @ ?qs) @ batch_pairs bs) k)"
    and s': "map_of ((ps @ ?qs) @ batch_pairs bs) (int (length (processed_cache d'))) = None"
    and n': "dataset_size d' = dataset_size d1"
    and f': "dataset_size d1 = Some (int n) \<and> fst ` set ((ps @ ?qs) @ batch_pairs bs) \<subseteq> {0..<int n} \<longrightarrow>
          (fully_cached d' \<longleftrightarrow>
             fully_cached d1 \<or> bs \<noteq> [] \<and> {0..<int n} \<subseteq> fst ` set ((ps @ ?qs) @ batch_pairs bs))"
    by blast
  have eq: "ps @ batch_pairs (b # bs) = (ps @ ?qs) @ batch_pairs bs"
    by (simp add: batch_pairs_Cons)
  have full: "fully_cached d' \<longleftrightarrow>
       fully_cached d \<or> {0..<int n} \<subseteq> fst ` set ((ps @ ?qs) @ batch_pairs bs)"
    if ds: "dataset_size d = Some (int n)"
      and sub: "fst ` set ((ps @ ?qs) @ batch_pairs bs) \<subseteq> {0..<int n}"
  proof -
    let ?m = "length (processed_cache d1)"
    have keys1: "int j \<in> fst ` set (ps @ ?qs)" if "j < ?m" for j
    proof -
      from c1 that have "map_of (ps @ ?qs) (int j) \<noteq> None" by simp
      then show ?thesis by (simp only: map_of_eq_None_iff) simp
    qed
    have le: "?m \<le> n"
    proof (rule ccontr)
      assume "\<not> ?m \<le> n"
      then have "n < ?m" by simp
      from keys1 [OF this] sub show False by auto
    qed
    have reach: "?m = n \<Longrightarrow> {0..<int n} \<subseteq> fst ` set ((ps @ ?qs) @ batch_pairs bs)"
    proof
      fix k assume m: "?m = n" and "k \<in> {0..<int n}"
      then have "nat k < ?m" and "int (nat k) = k" by (simp_all add: nat_less_iff)
      with keys1 [of "nat k"] show "k \<in> fst ` set ((ps @ ?qs) @ batch_pairs bs)" by auto
    qed
    have last: "?m = n" if "bs = []" "{0..<int n} \<subseteq> fst ` set ((ps @ ?qs) @ batch_pairs bs)"
    proof (rule ccontr)
      assume "?m \<noteq> n"
      with le have "int ?m \<in> {0..<int n}" by simp
      with that have "int ?m \<in> fst ` set (ps @ ?qs)" by (auto simp: batch_pairs_def)
      with s1 show False by (simp only: map_of_eq_None_iff) simp
    qed
    from ds n1 have "dataset_size d1 = Some (int n)" by simp
    with f' sub have "fully_cached d' \<longleftrightarrow>
        fully_cached d1 \<or> bs \<noteq> [] \<and> {0..<int n} \<subseteq> fst ` set ((ps @ ?qs) @ batch_pairs bs)"
      by blast
    moreover from f1 ds have "fully_cached d1 \<longleftrightarrow> ?m = n \<or> fully_cached d" by auto
    ultimately show ?thesis using reach last by blast
  qed
  from r' c' k' s' n' n1 full show ?case
    unfolding eq by (intro exI [of _ r']) simp
qed

lemma add_examples_flag:
  "flag_delete_source_in_add_cache (snd (add_examples qs d)) = flag_delete_source_in_add_cache d"
proof (induction qs arbitrary: d)
  case Nil
  then show ?case by simp
next
  case (Cons q qs)
  obtain i e where q: "q = (i, e)" by (cases q)
  show ?case
  proof (cases "reorder_cache d")
    case None
    with q Cons.IH [of "d\<lparr>processed_cache := processed_cache d @ [e]\<rparr>"] show ?thesis by simp
  next
    case (Some r)
    with q Cons.IH [of "d\<lparr>processed_cache := processed_cache d @ [e]\<rparr>"]
      Cons.IH [of "d\<lparr>reorder_cache := Some (AList.update i e r)\<rparr>"]
    show ?thesis by simp
  qed
qed

lemma add_batches_returns:
  "reorder_cache d = Some r \<Longrightarrow> \<not> flag_delete_source_in_add_cache d \<Longrightarrow>
   fst (add_batches bs d) = Inr ()"
proof (induction bs arbitrary: d r)
  case Nil
  then show ?case by simp
next
  case (Cons b bs)
  from Cons.prems(2) have ok: "flag_delete_source_in_add_cache d \<longrightarrow>
      fst (delete_source_examples (fst b) d) = Inr ()"
    by simp
  from add_cached_examples_exact [OF Cons.prems(1) ok, of "snd b"] Cons.prems(2)
  obtain d2 d' r' where d2: "add_examples (zip (fst b) (snd b)) d = (Inr (), d2)"
    and d': "add_cached_examples d (fst b) (snd b) = (Inr (), d')"
      "reorder_cache d' = Some r'"
      "flag_delete_source_in_add_cache d' = flag_delete_source_in_add_cache d2"
    by auto
  from add_examples_flag [of "zip (fst b) (snd b)" d] d2
  have "flag_delete_source_in_add_cache d2 = flag_delete_source_in_add_cache d" by simp
  with d'(3) Cons.prems(2) have "\<not> flag_delete_source_in_add_cache d'" by simp
  from Cons.IH [OF d'(2) this] d'(1) show ?case by simp
qed

lemma add_batches_fresh:
  assumes "reorder_cache d = Some []" and "processed_cache d = []"
    and "distinct (map fst (batch_pairs bs))" and "fst (add_batches bs d) = Inr ()"
  shows "(\<forall>j < length (processed_cache (snd (add_batches bs d))).
            map_of (batch_pairs bs) (int j) = Some (processed_cache (snd (add_batches bs d)) ! j))
     \<and> map_of (batch_pairs bs) (int (length (processed_cache (snd (add_batches bs d))))) = None
     \<and> (\<exists>r'. reorder_cache (snd (add_batches bs d)) = Some r'
           \<and> (\<forall>k. map_of r' k
                 = (if 0 \<le> k \<and> k < int (length (processed_cache (snd (add_batches bs d))))
                    then None else map_of (batch_pairs bs) k)))
     \<and> (dataset_size d = Some (int n) \<and> fst ` set (batch_pairs bs) \<subseteq> {0..<int n} \<longrightarrow>
          (fully_cached (snd (add_batches bs d)) \<longleftrightarrow>
             fully_cached d \<or> bs \<noteq> [] \<and> {0..<int n} \<subseteq> fst ` set (batch_pairs bs)))
     \<and> (fst ` set (batch_pairs bs) = {0..<int n} \<longrightarrow>
          processed_cache (snd (add_batches bs d))
            = map (\<lambda>j. the (map_of (batch_pairs bs) (int j))) [0..<n])"
proof -
  let ?d' = "snd (add_batches bs d)"
  let ?ps = "batch_pairs bs"
  let ?m = "length (processed_cache ?d')"
  from assms(4) have run: "add_batches bs d = (Inr (), ?d')"
    by (simp add: prod_eq_iff)
  from assms(3) have dist: "distinct (map fst ([] @ batch_pairs bs))" by simp
  have c0: "\<forall>j < length (processed_cache d). map_of [] (int j) = Some (processed_cache d ! j)"
    using assms(2) by simp
  have k0: "\<forall>k. map_of [] k
      = (if 0 \<le> k \<and> k < int (length (processed_cache d)) then None else map_of [] k)"
    by simp
  have s0: "map_of [] (int (length (processed_cache d))) = None" by simp
  from add_batches_content [OF run assms(1) dist c0 k0 s0, of n, unfolded append_Nil]
  obtain r' where r': "reorder_cache ?d' = Some r'"
    and c: "\<forall>j < ?m. map_of ?ps (int j) = Some (processed_cache ?d' ! j)"
    and k: "\<forall>k. map_of r' k = (if 0 \<le> k \<and> k < int ?m then None else map_of ?ps k)"
    and s: "map_of ?ps (int ?m) = None"
    and f: "dataset_size d = Some (int n) \<and> fst ` set ?ps \<subseteq> {0..<int n} \<longrightarrow>
          (fully_cached ?d' \<longleftrightarrow> fully_cached d \<or> bs \<noteq> [] \<and> {0..<int n} \<subseteq> fst ` set ?ps)"
    by blast
  have perm: "processed_cache ?d' = map (\<lambda>j. the (map_of ?ps (int j))) [0..<n]"
    if keys: "fst ` set ?ps = {0..<int n}"
  proof -
    have key: "int j \<in> fst ` set ?ps" if "j < ?m" for j
    proof -
      from c that have "map_of ?ps (int j) \<noteq> None" by simp
      then show ?thesis by (simp only: map_of_eq_None_iff) simp
    qed
    have "?m \<le> n"
    proof (rule ccontr)
      assume "\<not> ?m \<le> n"
      then have "n < ?m" by simp
      from key [OF this] keys show False by auto
    qed
    moreover have "\<not> ?m < n"
    proof
      assume "?m < n"
      with keys have "int ?m \<in> fst ` set ?ps" by simp
      with s show False by (simp only: map_of_eq_None_iff) simp
    qed
    ultimately have m: "?m = n" by simp
    show ?thesis
    proof (rule nth_equalityI)
      show "length (processed_cache ?d') = length (map (\<lambda>j. the (map_of ?ps (int j))) [0..<n])"
        using m by simp
    next
      fix j assume "j < length (processed_cache ?d')"
      with c m show "processed_cache ?d' ! j = map (\<lambda>j. the (map_of ?ps (int j))) [0..<n] ! j"
        by simp
    qed
  qed
  from r' c k s f perm show ?thesis by blast
qed

text \<open>
  Claim C2. Where the reorder buffer exists (and the deletion of raw examples, if the
  flag asks for it, succeeds), \<^verbatim>\<open>_add_cached_examples\<close> handles every pair of an index
  and an example, in whatever order they come, like this: a pair whose index is the
  current length of the processed cache is appended to it, any other pair is stored in
  the reorder buffer. After the batch the buffer is drained of the contiguous next
  entries: the examples appended are those stored under the next indices, in index
  order, the drain stops at the first index that has no entry, and the buffer keeps all
  other entries. \<^verbatim>\<open>fully_cached\<close> is set when the length equals \<^verbatim>\<open>dataset_size\<close>.
  Over any sequence of batches with distinct indices, starting from an empty cache and
  an empty buffer, the processed cache holds the examples of the indices 0, 1, ... up to
  the first index not yet ingested, each at its index, and the buffer holds the others;
  once the indices \<open>0, ..., n - 1\<close> have all come the cache is the list of their
  examples in index order, and \<^verbatim>\<open>fully_cached\<close> is true after a batch exactly when they
  all have come. For a dataset of 3 elements and an empty cache, the indices 2, 0, 1 (one
  call each, or one batch) give the processed cache \<open>[e0, e1, e2]\<close>, and
  \<^verbatim>\<open>fully_cached\<close> is false after the first and the second ingestion and true after
  the third.
\<close>

theorem add_cached_examples_reorders:
  assumes "reorder_cache d = Some r"
    and "flag_delete_source_in_add_cache d \<longrightarrow> fst (delete_source_examples indices d) = Inr ()"
  shows "(add_examples [] d = (Inr (), d)
         \<and> add_examples ((index, example) # rest) d
           = add_examples rest
               (if index = int (length (processed_cache d))
                then d\<lparr>processed_cache := processed_cache d @ [example]\<rparr>
                else d\<lparr>reorder_cache := Some (AList.update index example r)\<rparr>))
     \<and> (\<exists>d2 r2 ys.
           add_examples (zip indices examples)
             (if flag_delete_source_in_add_cache d
              then snd (delete_source_examples indices d) else d) = (Inr (), d2)
         \<and> reorder_cache d2 = Some r2
         \<and> add_cached_examples d indices examples
             = (Inr (),
                d2\<lparr>processed_cache := processed_cache d2 @ ys,
                   reorder_cache := Some (filter
                     (\<lambda>p. \<not> (int (length (processed_cache d2)) \<le> fst p
                            \<and> fst p < int (length (processed_cache d2) + length ys))) r2),
                   fully_cached :=
                     (if Some (int (length (processed_cache d2 @ ys))) = dataset_size d2
                      then True else fully_cached d2)\<rparr>)
         \<and> (\<exists>zs. processed_cache d2 = processed_cache d @ zs)
         \<and> dataset_size d2 = dataset_size d \<and> fully_cached d2 = fully_cached d
         \<and> (\<forall>j < length ys. map_of r2 (int (length (processed_cache d2) + j)) = Some (ys ! j))
         \<and> map_of r2 (int (length (processed_cache d2) + length ys)) = None)
     \<and> (\<not> flag_delete_source_in_add_cache d \<longrightarrow> fst (add_batches bs d) = Inr ())
     \<and> (processed_cache d = [] \<and> r = [] \<and> distinct (map fst (batch_pairs bs))
         \<and> fst (add_batches bs d) = Inr () \<longrightarrow>
           (\<forall>j < length (processed_cache (snd (add_batches bs d))).
              map_of (batch_pairs bs) (int j) = Some (processed_cache (snd (add_batches bs d)) ! j))
         \<and> map_of (batch_pairs bs) (int (length (processed_cache (snd (add_batches bs d))))) = None
         \<and> (\<exists>r'. reorder_cache (snd (add_batches bs d)) = Some r'
               \<and> (\<forall>k. map_of r' k
                     = (if 0 \<le> k \<and> k < int (length (processed_cache (snd (add_batches bs d))))
                        then None else map_of (batch_pairs bs) k)))
         \<and> (dataset_size d = Some (int n) \<and> fst ` set (batch_pairs bs) \<subseteq> {0..<int n} \<longrightarrow>
              (fully_cached (snd (add_batches bs d)) \<longleftrightarrow>
                 fully_cached d \<or> bs \<noteq> [] \<and> {0..<int n} \<subseteq> fst ` set (batch_pairs bs)))
         \<and> (fst ` set (batch_pairs bs) = {0..<int n} \<longrightarrow>
              processed_cache (snd (add_batches bs d))
                = map (\<lambda>j. the (map_of (batch_pairs bs) (int j))) [0..<n]))
     \<and> (processed_cache d = [] \<and> r = [] \<and> dataset_size d = Some 3 \<and> \<not> fully_cached d
         \<and> \<not> flag_delete_source_in_add_cache d \<longrightarrow>
           processed_cache (snd (add_cached_examples d [2] [e2])) = []
           \<and> \<not> fully_cached (snd (add_cached_examples d [2] [e2]))
           \<and> processed_cache (snd (add_cached_examples (snd (add_cached_examples d [2] [e2])) [0] [e0])) = [e0]
           \<and> \<not> fully_cached (snd (add_cached_examples (snd (add_cached_examples d [2] [e2])) [0] [e0]))
           \<and> processed_cache (snd (add_cached_examples
                 (snd (add_cached_examples (snd (add_cached_examples d [2] [e2])) [0] [e0])) [1] [e1]))
               = [e0, e1, e2]
           \<and> fully_cached (snd (add_cached_examples
                 (snd (add_cached_examples (snd (add_cached_examples d [2] [e2])) [0] [e0])) [1] [e1]))
           \<and> processed_cache (snd (add_cached_examples d [2, 0, 1] [e2, e0, e1])) = [e0, e1, e2]
           \<and> fully_cached (snd (add_cached_examples d [2, 0, 1] [e2, e0, e1])))"
proof -
  have step: "add_examples [] d = (Inr (), d)
         \<and> add_examples ((index, example) # rest) d
           = add_examples rest
               (if index = int (length (processed_cache d))
                then d\<lparr>processed_cache := processed_cache d @ [example]\<rparr>
                else d\<lparr>reorder_cache := Some (AList.update index example r)\<rparr>)"
    using assms(1) by simp
  note batch = add_cached_examples_exact [OF assms, of examples]
  have returns: "\<not> flag_delete_source_in_add_cache d \<longrightarrow> fst (add_batches bs d) = Inr ()"
    using add_batches_returns [OF assms(1), of bs] by blast
  have batches: "(\<forall>j < length (processed_cache (snd (add_batches bs d))).
              map_of (batch_pairs bs) (int j) = Some (processed_cache (snd (add_batches bs d)) ! j))
         \<and> map_of (batch_pairs bs) (int (length (processed_cache (snd (add_batches bs d))))) = None
         \<and> (\<exists>r'. reorder_cache (snd (add_batches bs d)) = Some r'
               \<and> (\<forall>k. map_of r' k
                     = (if 0 \<le> k \<and> k < int (length (processed_cache (snd (add_batches bs d))))
                        then None else map_of (batch_pairs bs) k)))
         \<and> (dataset_size d = Some (int n) \<and> fst ` set (batch_pairs bs) \<subseteq> {0..<int n} \<longrightarrow>
              (fully_cached (snd (add_batches bs d)) \<longleftrightarrow>
                 fully_cached d \<or> bs \<noteq> [] \<and> {0..<int n} \<subseteq> fst ` set (batch_pairs bs)))
         \<and> (fst ` set (batch_pairs bs) = {0..<int n} \<longrightarrow>
              processed_cache (snd (add_batches bs d))
                = map (\<lambda>j. the (map_of (batch_pairs bs) (int j))) [0..<n])"
    if "processed_cache d = []" "r = []" "distinct (map fst (batch_pairs bs))"
      "fst (add_batches bs d) = Inr ()"
  proof -
    from assms(1) that(2) have "reorder_cache d = Some []" by simp
    from add_batches_fresh [OF this that(1,3,4)] show ?thesis .
  qed
  have scenario: "processed_cache (snd (add_cached_examples d [2] [e2])) = []
           \<and> \<not> fully_cached (snd (add_cached_examples d [2] [e2]))
           \<and> processed_cache (snd (add_cached_examples (snd (add_cached_examples d [2] [e2])) [0] [e0])) = [e0]
           \<and> \<not> fully_cached (snd (add_cached_examples (snd (add_cached_examples d [2] [e2])) [0] [e0]))
           \<and> processed_cache (snd (add_cached_examples
                 (snd (add_cached_examples (snd (add_cached_examples d [2] [e2])) [0] [e0])) [1] [e1]))
               = [e0, e1, e2]
           \<and> fully_cached (snd (add_cached_examples
                 (snd (add_cached_examples (snd (add_cached_examples d [2] [e2])) [0] [e0])) [1] [e1]))
           \<and> processed_cache (snd (add_cached_examples d [2, 0, 1] [e2, e0, e1])) = [e0, e1, e2]
           \<and> fully_cached (snd (add_cached_examples d [2, 0, 1] [e2, e0, e1]))"
    if "processed_cache d = []" "r = []" "dataset_size d = Some 3" "\<not> fully_cached d"
      "\<not> flag_delete_source_in_add_cache d"
    using that assms(1)
    by (simp add: add_cached_examples_def drain_reorder_cache.simps)
  from batches have batches': "processed_cache d = [] \<and> r = [] \<and> distinct (map fst (batch_pairs bs))
         \<and> fst (add_batches bs d) = Inr () \<longrightarrow>
           (\<forall>j < length (processed_cache (snd (add_batches bs d))).
              map_of (batch_pairs bs) (int j) = Some (processed_cache (snd (add_batches bs d)) ! j))
         \<and> map_of (batch_pairs bs) (int (length (processed_cache (snd (add_batches bs d))))) = None
         \<and> (\<exists>r'. reorder_cache (snd (add_batches bs d)) = Some r'
               \<and> (\<forall>k. map_of r' k
                     = (if 0 \<le> k \<and> k < int (length (processed_cache (snd (add_batches bs d))))
                        then None else map_of (batch_pairs bs) k)))
         \<and> (dataset_size d = Some (int n) \<and> fst ` set (batch_pairs bs) \<subseteq> {0..<int n} \<longrightarrow>
              (fully_cached (snd (add_batches bs d)) \<longleftrightarrow>
                 fully_cached d \<or> bs \<noteq> [] \<and> {0..<int n} \<subseteq> fst ` set (batch_pairs bs)))
         \<and> (fst ` set (batch_pairs bs) = {0..<int n} \<longrightarrow>
              processed_cache (snd (add_batches bs d))
                = map (\<lambda>j. the (map_of (batch_pairs bs) (int j))) [0..<n])"
    by (intro impI) (elim conjE)
  from scenario have scenario': "processed_cache d = [] \<and> r = [] \<and> dataset_size d = Some 3
         \<and> \<not> fully_cached d \<and> \<not> flag_delete_source_in_add_cache d \<longrightarrow>
           processed_cache (snd (add_cached_examples d [2] [e2])) = []
           \<and> \<not> fully_cached (snd (add_cached_examples d [2] [e2]))
           \<and> processed_cache (snd (add_cached_examples (snd (add_cached_examples d [2] [e2])) [0] [e0])) = [e0]
           \<and> \<not> fully_cached (snd (add_cached_examples (snd (add_cached_examples d [2] [e2])) [0] [e0]))
           \<and> processed_cache (snd (add_cached_examples
                 (snd (add_cached_examples (snd (add_cached_examples d [2] [e2])) [0] [e0])) [1] [e1]))
               = [e0, e1, e2]
           \<and> fully_cached (snd (add_cached_examples
                 (snd (add_cached_examples (snd (add_cached_examples d [2] [e2])) [0] [e0])) [1] [e1]))
           \<and> processed_cache (snd (add_cached_examples d [2, 0, 1] [e2, e0, e1])) = [e0, e1, e2]
           \<and> fully_cached (snd (add_cached_examples d [2, 0, 1] [e2, e0, e1]))"
    by blast
  show ?thesis
    by (rule conjI [OF step conjI [OF batch conjI [OF returns conjI [OF batches' scenario']]]])
qed

theorem add_cached_examples_reorders_witness:
  "(\<exists>d. DataBase_init (SequenceDataSource [0, 1, 2, 3, 4 :: nat])
          \<lparr>hp_lazy_strategy = Lazy_ALL, hp_cache_strategy = Cache_PROCESSED,
           hp_num_parallel_calls = 2, hp_parallelize_processing = True,
           hp_max_dataset_size = - 1\<rparr> Suc = Some (Inr d)
      \<and> processed_cache (snd (add_batches [([4, 3, 1], [9, 8, 6]), ([2, 0], [7, 5])] d))
          = [5, 6, 7, 8, 9]
      \<and> fully_cached (snd (add_batches [([4, 3, 1], [9, 8, 6]), ([2, 0], [7, 5])] d))
      \<and> \<not> fully_cached (snd (add_batches [([4, 3, 1], [9, 8, 6])] d))
      \<and> processed_cache (snd (add_batches [([4, 3, 1], [9, 8, 6])] d)) = []
      \<and> fst (add_cached_examples d [2, 0, 1] [7, 5, 6]) = Inr ())
   \<and> (\<exists>d. DataBase_init (SequenceDataSource [4, 5, 6 :: nat])
          \<lparr>hp_lazy_strategy = Lazy_ALL, hp_cache_strategy = Cache_PROCESSED,
           hp_num_parallel_calls = 2, hp_parallelize_processing = True,
           hp_max_dataset_size = - 1\<rparr> Suc = Some (Inr d)
      \<and> \<not> fully_cached (snd (add_cached_examples (snd (add_cached_examples d [2] [7])) [0] [5]))
      \<and> processed_cache (snd (add_cached_examples
            (snd (add_cached_examples (snd (add_cached_examples d [2] [7])) [0] [5])) [1] [6]))
          = [5, 6, 7]
      \<and> fully_cached (snd (add_cached_examples
            (snd (add_cached_examples (snd (add_cached_examples d [2] [7])) [0] [5])) [1] [6]))
      \<and> processed_cache (snd (add_cached_examples d [2, 0, 1] [7, 5, 6])) = [5, 6, 7])"
proof -
  let ?bs = "[([4, 3, 1], [9, 8, 6]), ([2, 0], [7, 5])] :: (int list \<times> nat list) list"
  let ?b1 = "[([4, 3, 1], [9, 8, 6])] :: (int list \<times> nat list) list"
  obtain d where d: "DataBase_init (SequenceDataSource [0, 1, 2, 3, 4 :: nat])
          \<lparr>hp_lazy_strategy = Lazy_ALL, hp_cache_strategy = Cache_PROCESSED,
           hp_num_parallel_calls = 2, hp_parallelize_processing = True,
           hp_max_dataset_size = - 1\<rparr> Suc = Some (Inr d)"
      and r: "reorder_cache d = Some []" and f: "\<not> flag_delete_source_in_add_cache d"
      and pc: "processed_cache d = []" and n: "dataset_size d = Some (int 5)"
      and nf: "\<not> fully_cached d"
    by (simp add: DataBase_init_def probe_random_access_def resolve_strategies_def
        py_len_def list_getitem_def)
  from f have f': "flag_delete_source_in_add_cache d \<longrightarrow>
      fst (delete_source_examples [2, 0, 1] d) = Inr ()"
    by simp
  note claim = add_cached_examples_reorders [OF r f', where n = 5]
  have dist: "distinct (map fst (batch_pairs ?bs))" "distinct (map fst (batch_pairs ?b1))"
    by (simp_all add: batch_pairs_def)
  have keys: "fst ` set (batch_pairs ?bs) = {0..<int 5}"
    by (auto simp: batch_pairs_def)
  have keys1: "fst ` set (batch_pairs ?b1) \<subseteq> {0..<int 5}"
    by (auto simp: batch_pairs_def)
  have "(0::int) \<in> {0..<int 5}" and "(0::int) \<notin> fst ` set (batch_pairs ?b1)"
    by (simp_all add: batch_pairs_def)
  then have keys1': "\<not> {0..<int 5} \<subseteq> fst ` set (batch_pairs ?b1)" by blast
  have vals: "map (\<lambda>j. the (map_of (batch_pairs ?bs) (int j))) [0..<5] = [5, 6, 7, 8, 9]"
    by code_simp
  from claim [where bs = ?bs, THEN conjunct2, THEN conjunct2, THEN conjunct1] f
  have run: "fst (add_batches ?bs d) = Inr ()" by simp
  from claim [where bs = ?b1, THEN conjunct2, THEN conjunct2, THEN conjunct1] f
  have run1: "fst (add_batches ?b1 d) = Inr ()" by simp
  from pc dist(1) run have h: "processed_cache d = [] \<and> [] = ([] :: (int \<times> nat) list)
      \<and> distinct (map fst (batch_pairs ?bs)) \<and> fst (add_batches ?bs d) = Inr ()"
    by simp
  from pc dist(2) run1 have h1: "processed_cache d = [] \<and> [] = ([] :: (int \<times> nat) list)
      \<and> distinct (map fst (batch_pairs ?b1)) \<and> fst (add_batches ?b1 d) = Inr ()"
    by simp
  note all = claim [where bs = ?bs, THEN conjunct2, THEN conjunct2, THEN conjunct2, THEN conjunct1,
      THEN mp, OF h]
  note first = claim [where bs = ?b1, THEN conjunct2, THEN conjunct2, THEN conjunct2, THEN conjunct1,
      THEN mp, OF h1]
  from all keys vals have w1: "processed_cache (snd (add_batches ?bs d)) = [5, 6, 7, 8, 9]"
    by simp
  from all keys n nf have w2: "fully_cached (snd (add_batches ?bs d))" by simp
  from first keys1 keys1' n nf have w3: "\<not> fully_cached (snd (add_batches ?b1 d))" by simp
  have "map_of (batch_pairs ?b1) 0 = None" by (simp add: batch_pairs_def)
  with first have w4: "processed_cache (snd (add_batches ?b1 d)) = []"
    by (cases "processed_cache (snd (add_batches ?b1 d))") auto
  from claim [where examples = "[7, 5, 6]", THEN conjunct2, THEN conjunct1]
  obtain d' where "add_cached_examples d [2, 0, 1] [7, 5, 6] = (Inr (), d')" by blast
  then have w5: "fst (add_cached_examples d [2, 0, 1] [7, 5, 6]) = Inr ()" by simp
  from d w1 w2 w3 w4 w5 have five: "\<exists>d. DataBase_init (SequenceDataSource [0, 1, 2, 3, 4 :: nat])
          \<lparr>hp_lazy_strategy = Lazy_ALL, hp_cache_strategy = Cache_PROCESSED,
           hp_num_parallel_calls = 2, hp_parallelize_processing = True,
           hp_max_dataset_size = - 1\<rparr> Suc = Some (Inr d)
      \<and> processed_cache (snd (add_batches ?bs d)) = [5, 6, 7, 8, 9]
      \<and> fully_cached (snd (add_batches ?bs d))
      \<and> \<not> fully_cached (snd (add_batches ?b1 d))
      \<and> processed_cache (snd (add_batches ?b1 d)) = []
      \<and> fst (add_cached_examples d [2, 0, 1] [7, 5, 6]) = Inr ()"
    by (intro exI [of _ d] conjI)
  obtain t where t: "DataBase_init (SequenceDataSource [4, 5, 6 :: nat])
          \<lparr>hp_lazy_strategy = Lazy_ALL, hp_cache_strategy = Cache_PROCESSED,
           hp_num_parallel_calls = 2, hp_parallelize_processing = True,
           hp_max_dataset_size = - 1\<rparr> Suc = Some (Inr t)"
      and tr: "reorder_cache t = Some []" and tf: "\<not> flag_delete_source_in_add_cache t"
      and ts: "processed_cache t = [] \<and> [] = ([] :: (int \<times> nat) list) \<and> dataset_size t = Some 3
          \<and> \<not> fully_cached t \<and> \<not> flag_delete_source_in_add_cache t"
    by (simp add: DataBase_init_def probe_random_access_def resolve_strategies_def
        py_len_def list_getitem_def)
  from tf have tf': "flag_delete_source_in_add_cache t \<longrightarrow>
      fst (delete_source_examples [] t) = Inr ()"
    by simp
  from add_cached_examples_reorders
         [OF tr tf', where ?e2.0 = 7 and ?e0.0 = 5 and ?e1.0 = 6,
          THEN conjunct2, THEN conjunct2, THEN conjunct2, THEN conjunct2, THEN mp, OF ts] t
  have three: "\<exists>d. DataBase_init (SequenceDataSource [4, 5, 6 :: nat])
          \<lparr>hp_lazy_strategy = Lazy_ALL, hp_cache_strategy = Cache_PROCESSED,
           hp_num_parallel_calls = 2, hp_parallelize_processing = True,
           hp_max_dataset_size = - 1\<rparr> Suc = Some (Inr d)
      \<and> \<not> fully_cached (snd (add_cached_examples (snd (add_cached_examples d [2] [7])) [0] [5]))
      \<and> processed_cache (snd (add_cached_examples
            (snd (add_cached_examples (snd (add_cached_examples d [2] [7])) [0] [5])) [1] [6]))
          = [5, 6, 7]
      \<and> fully_cached (snd (add_cached_examples
            (snd (add_cached_examples (snd (add_cached_examples d [2] [7])) [0] [5])) [1] [6]))
      \<and> processed_cache (snd (add_cached_examples d [2, 0, 1] [7, 5, 6])) = [5, 6, 7]"
    by (intro exI [of _ t]) simp
  from five three show ?thesis by (rule conjI)
qed

section \<open>Eager construction against lazy reads\<close>

text \<open>
  Where the construction fuses the processing into the source, or \<^verbatim>\<open>__getitem__\<close>
  applies it, the lazy reads of a non-empty sequence source give the processed cache of
  the eager engine.
\<close>

lemma getitem_each_map:
  "(\<And>i. i \<in> set is \<Longrightarrow> DataBase_getitem d i = (Inr (h i), d)) \<Longrightarrow>
   getitem_each is d = Inr (map h is)"
  by (induction "is") simp_all

lemma map_nth_upto: "map (\<lambda>i. h (xs ! nat i)) [0..int (length xs) - 1] = map h xs"
proof (induction xs rule: rev_induct)
  case Nil
  then show ?case by simp
next
  case (snoc x xs)
  have "[0..int (length (xs @ [x])) - 1] = [0..int (length xs) - 1] @ [int (length xs)]"
    using upto_rec2 [of 0 "int (length xs)"] by simp
  moreover have "map (\<lambda>i. h ((xs @ [x]) ! nat i)) [0..int (length xs) - 1]
      = map (\<lambda>i. h (xs ! nat i)) [0..int (length xs) - 1]"
    by (rule map_cong) (auto simp: nth_append)
  ultimately show ?case using snoc by simp
qed

lemma DataBase_getitem_sequence:
  assumes "\<not> fully_cached d" and "0 \<le> i" and "i < int (length xs)"
    and "parallelize_processing d \<and> source d = Direct (SequenceDataSource xs) \<and> process d = f
       \<or> \<not> parallelize_processing d
           \<and> source d = Direct (TransformedDataSource (SequenceDataSource xs) f)"
  shows "DataBase_getitem d i = (Inr (f (xs ! nat i)), d)"
  using assms by (auto simp: DataBase_getitem_def source_getitem_def list_getitem_def)

lemma eager_processed_cache_sequence:
  "hp_max_dataset_size hp = - 1 \<Longrightarrow>
   eager_processed_cache (SequenceDataSource xs) hp f = Some (Inr (map f xs))"
  by (simp add: eager_processed_cache_def DataBase_init_def probe_random_access_def
      resolve_strategies_def engine_source_iter_def)

lemma lazy_init_sequence:
  assumes "xs \<noteq> []" and "hp_lazy_strategy hp \<noteq> Lazy_NONE" and "hp_max_dataset_size hp = - 1"
    and "\<not> (\<not> hp_parallelize_processing hp \<and> hp_lazy_strategy hp = Lazy_PROCESS
            \<and> hp_cache_strategy hp = Cache_PROCESSED)"
  shows "\<exists>d. DataBase_init (SequenceDataSource xs) hp f = Some (Inr d) \<and> \<not> fully_cached d
     \<and> (parallelize_processing d \<and> source d = Direct (SequenceDataSource xs) \<and> process d = f
       \<or> \<not> parallelize_processing d
           \<and> source d = Direct (TransformedDataSource (SequenceDataSource xs) f))"
proof -
  from assms(1) have ne: "0 < length xs" by simp
  show ?thesis
  proof (cases "hp_lazy_strategy hp")
    case Lazy_NONE
    with assms(2) show ?thesis by simp
  next
    case Lazy_PROCESS
    with assms ne show ?thesis
      by (cases "hp_cache_strategy hp"; cases "hp_parallelize_processing hp")
         (simp_all add: DataBase_init_def probe_random_access_def resolve_strategies_def
            py_len_def list_getitem_def)
  next
    case Lazy_ALL
    with assms ne show ?thesis
      by (cases "hp_cache_strategy hp"; cases "hp_parallelize_processing hp")
         (simp_all add: DataBase_init_def probe_random_access_def resolve_strategies_def
            py_len_def list_getitem_def)
  qed
qed

lemma round_trip_where_processing_is_applied:
  assumes "xs \<noteq> []" and "hp_lazy_strategy hp \<noteq> Lazy_NONE" and "hp_max_dataset_size hp = - 1"
    and "\<not> (\<not> hp_parallelize_processing hp \<and> hp_lazy_strategy hp = Lazy_PROCESS
            \<and> hp_cache_strategy hp = Cache_PROCESSED)"
  shows "lazy_getitem_all (SequenceDataSource xs) hp f (int (length xs))
     = eager_processed_cache (SequenceDataSource xs) hp f"
proof -
  from lazy_init_sequence [OF assms] obtain d where
    d: "DataBase_init (SequenceDataSource xs) hp f = Some (Inr d)" "\<not> fully_cached d"
      "parallelize_processing d \<and> source d = Direct (SequenceDataSource xs) \<and> process d = f
       \<or> \<not> parallelize_processing d
           \<and> source d = Direct (TransformedDataSource (SequenceDataSource xs) f)"
    by blast
  have "getitem_each [0..int (length xs) - 1] d
      = Inr (map (\<lambda>i. f (xs ! nat i)) [0..int (length xs) - 1])"
    by (rule getitem_each_map) (simp add: DataBase_getitem_sequence [OF d(2) _ _ d(3)])
  then have "getitem_each [0..int (length xs) - 1] d = Inr (map f xs)"
    by (simp add: map_nth_upto)
  with d(1) assms(3) show ?thesis
    by (simp add: lazy_getitem_all_def eager_processed_cache_sequence)
qed


text \<open>
  Claim C1 says that the processed cache of the eager engine equals the results of
  \<^verbatim>\<open>get(0)\<close>, ..., \<^verbatim>\<open>get(N - 1)\<close> on a lazy engine over the same sequence source and
  processing function. The code breaks this at two inputs. With laziness process, cache
  processed and processing that is not parallelized, no step of the construction wraps
  the source into the processing, and \<^verbatim>\<open>__getitem__\<close> returns \<^verbatim>\<open>self._source[index]\<close>:
  the raw example 7 where the eager cache holds 8. Over the empty sequence the eager
  engine has the empty cache, and the lazy construction raises \<open>IndexError\<close>.
\<close>

theorem round_trip_fails_without_fusion:
  "eager_processed_cache (SequenceDataSource [7 :: nat])
     \<lparr>hp_lazy_strategy = Lazy_PROCESS, hp_cache_strategy = Cache_PROCESSED,
      hp_num_parallel_calls = 1, hp_parallelize_processing = False,
      hp_max_dataset_size = - 1\<rparr> Suc = Some (Inr [8])
   \<and> lazy_getitem_all (SequenceDataSource [7 :: nat])
     \<lparr>hp_lazy_strategy = Lazy_PROCESS, hp_cache_strategy = Cache_PROCESSED,
      hp_num_parallel_calls = 1, hp_parallelize_processing = False,
      hp_max_dataset_size = - 1\<rparr> Suc 1 = Some (Inr [7])
   \<and> eager_processed_cache (SequenceDataSource ([] :: nat list))
     \<lparr>hp_lazy_strategy = Lazy_ALL, hp_cache_strategy = Cache_PROCESSED,
      hp_num_parallel_calls = 1, hp_parallelize_processing = True,
      hp_max_dataset_size = - 1\<rparr> Suc = Some (Inr [])
   \<and> lazy_getitem_all (SequenceDataSource ([] :: nat list))
     \<lparr>hp_lazy_strategy = Lazy_ALL, hp_cache_strategy = Cache_PROCESSED,
      hp_num_parallel_calls = 1, hp_parallelize_processing = True,
      hp_max_dataset_size = - 1\<rparr> Suc 0 = Some (Inl IndexError)"
  by code_simp

end
